theory Spec2Isabelle
  imports Main "HOL-Library.AList"
begin

section \<open>Data model\<close>

text \<open>
  The cache entry of the host library (\<open>CacheHandlerValue\<close>): the code reads its
  \<open>tags\<close>, its \<open>lastModified\<close> and the \<open>expireAt\<close> of its optional \<open>lifespan\<close>;
  the cached \<open>value\<close> itself is opaque to both handlers and is kept as \<open>payload\<close>.
  Timestamps are JavaScript numbers holding integers (milliseconds for
  \<open>lastModified\<close>, seconds for \<open>expireAt\<close>) and are modelled as \<open>int\<close>.
\<close>

record LifespanParameters =
  expireAt :: int

record CacheHandlerValue =
  lastModified :: int
  lifespan :: "LifespanParameters option"
  tags :: "string list"
  payload :: string

record HandlerGetMeta =
  implicitTags :: "string list"

text \<open>Every \<open>throw\<close> of the source, and the rejections of the calls it awaits.\<close>

datatype error =
    ClientNotReady
  | InvalidKeyExpirationStrategy string
  | CompositeTooFewHandlers
  | SyntaxError
  | ReplyError
  | TypeError

type_synonym 'a result = "error + 'a"

text \<open>
  A \<open>Handler\<close> of the host library, as an object whose asynchronous methods act on a
  world \<open>'w\<close> (the stores behind the handlers) and return it updated; a rejected promise
  is \<open>Inl\<close>, and the world it leaves behind is returned with it. \<open>delete\<close> is optional.
\<close>

record 'w Handler =
  name :: string
  get_op :: "string \<Rightarrow> HandlerGetMeta \<Rightarrow> 'w \<Rightarrow> CacheHandlerValue option result \<times> 'w"
  set_op :: "string \<Rightarrow> CacheHandlerValue \<Rightarrow> 'w \<Rightarrow> unit result \<times> 'w"
  revalidateTag_op :: "string \<Rightarrow> 'w \<Rightarrow> unit result \<times> 'w"
  delete_op :: "(string \<Rightarrow> 'w \<Rightarrow> unit result \<times> 'w) option"

section \<open>The composite handler (handlers/composite.ts, first module)\<close>

record 'w CreateCompositeHandlerOptions =
  handlers :: "'w Handler list"
  setStrategy :: "(CacheHandlerValue \<Rightarrow> int) option"

text \<open>
  \<open>for (const handler of handlers) { const value = await handler.get(key, ctx);
  if (value !== null) return value; } return null;\<close>
  A member whose \<open>get\<close> rejects ends the loop with that rejection.
\<close>

fun composite_get :: "'w Handler list \<Rightarrow> string \<Rightarrow> HandlerGetMeta \<Rightarrow> 'w
    \<Rightarrow> CacheHandlerValue option result \<times> 'w" where
  "composite_get [] key ctx w = (Inr None, w)"
| "composite_get (handler # rest) key ctx w =
     (case get_op handler key ctx w of
        (Inl e, w') \<Rightarrow> (Inl e, w')
      | (Inr (Some v), w') \<Rightarrow> (Inr (Some v), w')
      | (Inr None, w') \<Rightarrow> composite_get rest key ctx w')"

text \<open>
  JavaScript's \<open>handlers[index]\<close>: \<open>undefined\<close> (here \<open>None\<close>) for an index that is
  negative or not below the length.
\<close>

definition index_opt :: "'a list \<Rightarrow> int \<Rightarrow> 'a option" where
  "index_opt xs i = (if 0 \<le> i \<and> i < int (length xs) then Some (xs ! nat i) else None)"

text \<open>
  \<open>const index = strategy?.(data) ?? 0;
  const handler = handlers[index] ?? handlers[0]!;
  await handler.set(key, data);\<close>
\<close>

definition composite_set :: "'w Handler list \<Rightarrow> (CacheHandlerValue \<Rightarrow> int) option
    \<Rightarrow> string \<Rightarrow> CacheHandlerValue \<Rightarrow> 'w \<Rightarrow> unit result \<times> 'w" where
  "composite_set hs strategy key data w =
     (let index = (case strategy of None \<Rightarrow> 0 | Some f \<Rightarrow> f data)
      in case index_opt hs index of
           Some handler \<Rightarrow> set_op handler key data w
         | None \<Rightarrow>
             (case index_opt hs 0 of
                Some handler \<Rightarrow> set_op handler key data w
              | None \<Rightarrow> (Inl TypeError, w)))"

text \<open>
  \<open>await Promise.all(calls)\<close>: every call is started, in list order, and runs to its
  end; the join rejects with a rejection of one of them. The calls of the members are
  run one after the other here.
\<close>

fun promise_all :: "('w \<Rightarrow> unit result \<times> 'w) list \<Rightarrow> 'w \<Rightarrow> unit result \<times> 'w" where
  "promise_all [] w = (Inr (), w)"
| "promise_all (c # cs) w =
     (case c w of
        (r, w') \<Rightarrow>
          (case promise_all cs w' of
             (r', w'') \<Rightarrow> ((case r of Inl e \<Rightarrow> Inl e | Inr _ \<Rightarrow> r'), w'')))"

definition composite_revalidateTag :: "'w Handler list \<Rightarrow> string \<Rightarrow> 'w \<Rightarrow> unit result \<times> 'w" where
  "composite_revalidateTag hs tag = promise_all (map (\<lambda>handler. revalidateTag_op handler tag) hs)"

definition composite_delete :: "'w Handler list \<Rightarrow> string \<Rightarrow> 'w \<Rightarrow> unit result \<times> 'w" where
  "composite_delete hs key =
     promise_all (map (\<lambda>handler. case delete_op handler of
                                   None \<Rightarrow> (\<lambda>w. (Inr (), w))
                                 | Some d \<Rightarrow> d key) hs)"

text \<open>\<open>createHandler\<close> of the composite: it throws for fewer than two handlers.\<close>

definition composite_createHandler :: "'w CreateCompositeHandlerOptions \<Rightarrow> 'w Handler result" where
  "composite_createHandler opts =
     (if length (handlers opts) < 2 then Inl CompositeTooFewHandlers
      else Inr \<lparr> name = ''apopro-composite'',
                 get_op = composite_get (handlers opts),
                 set_op = composite_set (handlers opts) (setStrategy opts),
                 revalidateTag_op = composite_revalidateTag (handlers opts),
                 delete_op = Some (composite_delete (handlers opts)) \<rparr>)"

text \<open>
  Two notions the statements about the composite use. \<open>all_miss hs key ctx w\<close> asks the
  members of \<open>hs\<close> in list order, each in the world the one before left, and is the
  final world when every one of them returned empty, \<open>None\<close> otherwise.
  \<open>placement\<close> is the member index the specification names for a write.
\<close>

fun all_miss :: "'w Handler list \<Rightarrow> string \<Rightarrow> HandlerGetMeta \<Rightarrow> 'w \<Rightarrow> 'w option" where
  "all_miss [] key ctx w = Some w"
| "all_miss (handler # rest) key ctx w =
     (case get_op handler key ctx w of
        (Inr None, w') \<Rightarrow> all_miss rest key ctx w'
      | _ \<Rightarrow> None)"

definition placement :: "'w Handler list \<Rightarrow> (CacheHandlerValue \<Rightarrow> int) option
    \<Rightarrow> CacheHandlerValue \<Rightarrow> nat" where
  "placement hs strategy data =
     (case strategy of
        None \<Rightarrow> 0
      | Some f \<Rightarrow> if 0 \<le> f data \<and> f data < int (length hs) then nat (f data) else 0)"

section \<open>The remote store\<close>

text \<open>
  The Redis client the handler is given. String keys hold a value and an optional
  expiration time in seconds; a hash is a list of field/value pairs in insertion order,
  and a hash that does not exist is the empty list. String keys and hashes are kept in
  two stores: a cache key is taken never to name one of the index hashes. \<open>issued\<close>
  records every command sent, in order. Commands are answered at once; timeouts and
  connection failures of a ready client are outside the model. \<open>isReady\<close> is the
  flag \<open>assertClientIsReady\<close> reads; what a client that is not ready does with a
  command it is sent anyway is not modelled apart from recording it: the command is
  executed like any other.
\<close>

datatype command =
    GET string
  | SET string string "int option"
  | EXPIREAT string int
  | UNLINK "string list"
  | HSET string string string
  | HDEL string "string list"
  | HSCAN string nat nat
  | HMGET string "string list"

record redis =
  isReady :: bool
  strings :: "string \<rightharpoonup> (string \<times> int option)"
  hashes :: "string \<Rightarrow> (string \<times> string) list"
  issued :: "command list"

definition issue :: "command \<Rightarrow> redis \<Rightarrow> redis" where
  "issue c s = s\<lparr>issued := issued s @ [c]\<rparr>"

text \<open>
  \<open>GET\<close> at clock reading \<open>now\<close> (milliseconds): a key whose expiration time has
  been reached is not visible any more.
\<close>

definition client_get :: "int \<Rightarrow> string \<Rightarrow> redis \<Rightarrow> string option \<times> redis" where
  "client_get now key s =
     ((case strings s key of
         None \<Rightarrow> None
       | Some (v, None) \<Rightarrow> Some v
       | Some (v, Some t) \<Rightarrow> if t * 1000 \<le> now then None else Some v),
      issue (GET key) s)"

text \<open>\<open>SET key value\<close>, with the \<open>EXAT\<close> option when \<open>exat\<close> is given.\<close>

definition client_set :: "string \<Rightarrow> string \<Rightarrow> int option \<Rightarrow> redis \<Rightarrow> redis" where
  "client_set key v exat s =
     issue (SET key v exat) (s\<lparr>strings := (strings s)(key \<mapsto> (v, exat))\<rparr>)"

definition client_expireAt :: "string \<Rightarrow> int \<Rightarrow> redis \<Rightarrow> redis" where
  "client_expireAt key t s =
     issue (EXPIREAT key t)
       (case strings s key of
          None \<Rightarrow> s
        | Some (v, _) \<Rightarrow> s\<lparr>strings := (strings s)(key \<mapsto> (v, Some t))\<rparr>)"

definition client_unlink :: "string list \<Rightarrow> redis \<Rightarrow> redis" where
  "client_unlink keys s = issue (UNLINK keys) (s\<lparr>strings := strings s |` (- set keys)\<rparr>)"

definition client_hSet :: "string \<Rightarrow> string \<Rightarrow> string \<Rightarrow> redis \<Rightarrow> redis" where
  "client_hSet h field v s =
     issue (HSET h field v) (s\<lparr>hashes := (hashes s)(h := AList.update field v (hashes s h))\<rparr>)"

definition client_hDel :: "string \<Rightarrow> string list \<Rightarrow> redis \<Rightarrow> redis" where
  "client_hDel h flds s =
     issue (HDEL h flds)
       (s\<lparr>hashes := (hashes s)(h := filter (\<lambda>(f, v). f \<notin> set flds) (hashes s h))\<rparr>)"

definition client_hmGet :: "string \<Rightarrow> string list \<Rightarrow> redis \<Rightarrow> string option list \<times> redis" where
  "client_hmGet h flds s = (map (map_of (hashes s h)) flds, issue (HMGET h flds) s)"

text \<open>
  \<open>HSCAN h cursor COUNT count\<close>: the cursor is the position reached in the hash, a
  page holds \<open>count\<close> pairs, and the cursor returned is 0 once the end is reached.
  Redis rejects a \<open>COUNT\<close> below 1.
\<close>

definition client_hScan :: "string \<Rightarrow> nat \<Rightarrow> nat \<Rightarrow> redis
    \<Rightarrow> (nat \<times> (string \<times> string) list) result \<times> redis" where
  "client_hScan h cursor count s =
     ((if count = 0 then Inl ReplyError
       else Inr (if cursor + count < length (hashes s h) then cursor + count else 0,
                 take count (drop cursor (hashes s h)))),
      issue (HSCAN h cursor count) s)"

section \<open>JavaScript built-ins the handler calls\<close>

text \<open>
  Numbers are written to the store in decimal (\<open>toString\<close> of an integer) and read
  back with \<open>Number.parseInt(_, 10)\<close> and \<open>Number(_)\<close>; \<open>None\<close> is \<open>NaN\<close>, for
  which every comparison is false. \<open>Number_js\<close> covers the integer literals the handler
  writes: a string that is not blank and not an optionally signed run of decimal digits is
  read as \<open>NaN\<close> here (fractions, exponents, other radixes and infinities are not
  modelled). White space is the ASCII white space.
\<close>

definition is_space :: "char \<Rightarrow> bool" where
  "is_space c = (c \<in> set [CHR '' '', CHR 0x09, CHR 0x0A, CHR 0x0B, CHR 0x0C, CHR 0x0D])"

definition is_digit :: "char \<Rightarrow> bool" where
  "is_digit c = (c \<in> set ''0123456789'')"

definition digit_val :: "char \<Rightarrow> int" where
  "digit_val c = of_char c - 48"

definition dec_val :: "string \<Rightarrow> int" where
  "dec_val ds = foldl (\<lambda>a c. a * 10 + digit_val c) 0 ds"

fun to_digits :: "nat \<Rightarrow> string" where
  "to_digits n = (if n < 10 then [''0123456789'' ! n]
                  else to_digits (n div 10) @ [''0123456789'' ! (n mod 10)])"

declare to_digits.simps [simp del]

definition toString :: "int \<Rightarrow> string" where
  "toString i = (if i < 0 then CHR ''-'' # to_digits (nat (- i)) else to_digits (nat i))"

definition split_sign :: "string \<Rightarrow> bool \<times> string" where
  "split_sign s =
     (case s of
        [] \<Rightarrow> (False, [])
      | c # r \<Rightarrow> if c = CHR ''-'' then (True, r) else if c = CHR ''+'' then (False, r) else (False, s))"

definition parseInt :: "string \<Rightarrow> int option" where
  "parseInt s =
     (case split_sign (dropWhile is_space s) of
        (neg, r) \<Rightarrow>
          (let ds = takeWhile is_digit r
           in if ds = [] then None
              else Some (if neg then - dec_val ds else dec_val ds)))"

definition Number_js :: "string \<Rightarrow> int option" where
  "Number_js s =
     (let t = rev (dropWhile is_space (rev (dropWhile is_space s)))
      in if t = [] then Some 0
         else case split_sign t of
                (neg, r) \<Rightarrow>
                  if r \<noteq> [] \<and> list_all is_digit r
                  then Some (if neg then - dec_val r else dec_val r)
                  else None)"

text \<open>
  \<open>Array.from(new Set(xs))\<close>: the elements of \<open>xs\<close> in the order of their first
  occurrence.
\<close>

definition Array_from_Set :: "'a list \<Rightarrow> 'a list" where
  "Array_from_Set xs = rev (remdups (rev xs))"

text \<open>
  A \<open>for ... of\<close> loop over a page whose body may throw, and a JavaScript \<open>Map\<close> as
  the list of its entries in insertion order (\<open>Map.set\<close> is \<open>AList.update\<close>).
\<close>

fun for_of :: "('a \<Rightarrow> 'm \<Rightarrow> 'm result) \<Rightarrow> 'a list \<Rightarrow> 'm \<Rightarrow> 'm result" where
  "for_of body [] m = Inr m"
| "for_of body (x # xs) m = (case body x m of Inl e \<Rightarrow> Inl e | Inr m' \<Rightarrow> for_of body xs m')"

section \<open>The Redis strings handler (handlers/composite.ts, second module)\<close>

text \<open>
  The options of \<open>createHandler\<close>. \<open>timeoutMs\<close> only bounds the waiting time of
  a command and has no counterpart here.
\<close>

record CreateRedisStringsHandlerOptions =
  keyPrefix :: string
  sharedTagsKey :: string
  sharedTagsTtlKey :: string
  keyExpirationStrategy :: string
  revalidateTagQuerySize :: nat

text \<open>
  What the handler takes from outside this repository, as parameters: the constant
  \<open>REVALIDATED_TAGS_KEY\<close> and the helper \<open>isImplicitTag\<close> of the host library, and
  the JSON built-ins at the two types the handler uses them at. \<open>JSON.parse\<close> throws a
  \<open>SyntaxError\<close> on text that is not JSON; on a payload it gives an entry or \<open>null\<close>
  (the source's \<open>as CacheHandlerValue | null\<close>).
\<close>

record Imports =
  REVALIDATED_TAGS_KEY :: string
  isImplicitTag :: "string \<Rightarrow> bool"
  JSON_parse_value :: "string \<Rightarrow> CacheHandlerValue option result"
  JSON_stringify_value :: "CacheHandlerValue \<Rightarrow> string"
  JSON_parse_tags :: "string \<Rightarrow> string list result"
  JSON_stringify_tags :: "string list \<Rightarrow> string"

definition tagsKey :: "CreateRedisStringsHandlerOptions \<Rightarrow> string" where
  "tagsKey opts = keyPrefix opts @ sharedTagsKey opts"

definition ttlKey :: "CreateRedisStringsHandlerOptions \<Rightarrow> string" where
  "ttlKey opts = keyPrefix opts @ sharedTagsTtlKey opts"

definition revalidatedTagsKey :: "CreateRedisStringsHandlerOptions \<Rightarrow> Imports \<Rightarrow> string" where
  "revalidatedTagsKey opts imp = keyPrefix opts @ REVALIDATED_TAGS_KEY imp"

text \<open>
  The \<open>do ... while (cursor !== 0)\<close> loop of \<open>revalidateTags\<close> and of
  \<open>revalidateSharedKeys\<close>: scan a page, run \<open>body\<close> on each of its tuples, go on
  from the cursor returned until it is 0.
\<close>

function scan_loop :: "string \<Rightarrow> nat \<Rightarrow> (string \<times> string \<Rightarrow> 'm \<Rightarrow> 'm result) \<Rightarrow> nat \<Rightarrow> 'm
    \<Rightarrow> redis \<Rightarrow> 'm result \<times> redis" where
  "scan_loop h count body cursor m s =
     (case client_hScan h cursor count s of
        (Inl e, s') \<Rightarrow> (Inl e, s')
      | (Inr (cursor', tuples), s') \<Rightarrow>
          (case for_of body tuples m of
             Inl e \<Rightarrow> (Inl e, s')
           | Inr m' \<Rightarrow> if cursor' \<noteq> 0 then scan_loop h count body cursor' m' s'
                       else (Inr m', s')))"
  by pat_completeness auto
termination
  by (relation "measure (\<lambda>(h, count, body, cursor, m, s). length (hashes s h) - cursor)")
     (auto simp: client_hScan_def issue_def split: if_splits)

declare scan_loop.simps [simp del]

text \<open>
  \<open>revalidateTags(tag)\<close>: collect the Tag Index into \<open>tagsMap\<close> (parsing each
  value, which throws on text that is not JSON), pick the keys whose tag list includes
  \<open>tag\<close>, return if there are none, else unlink their payload keys and drop their
  fields from both index hashes.
\<close>

definition revalidateTags :: "CreateRedisStringsHandlerOptions \<Rightarrow> Imports \<Rightarrow> string \<Rightarrow> redis
    \<Rightarrow> unit result \<times> redis" where
  "revalidateTags opts imp tag s =
     (case scan_loop (tagsKey opts) (revalidateTagQuerySize opts)
             (\<lambda>(field, v) tagsMap.
                case JSON_parse_tags imp v of
                  Inl e \<Rightarrow> Inl e
                | Inr ts \<Rightarrow> Inr (AList.update field ts tagsMap))
             0 [] s of
        (Inl e, s1) \<Rightarrow> (Inl e, s1)
      | (Inr tagsMap, s1) \<Rightarrow>
          (let hits = filter (\<lambda>(key, ts). tag \<in> set ts) tagsMap;
               keysToDelete = map (\<lambda>(key, ts). keyPrefix opts @ key) hits;
               tagsToDelete = map fst hits
           in if keysToDelete = [] then (Inr (), s1)
              else (Inr (),
                    client_hDel (ttlKey opts) tagsToDelete
                      (client_hDel (tagsKey opts) tagsToDelete
                         (client_unlink keysToDelete s1)))))"

text \<open>
  \<open>revalidateSharedKeys()\<close>: collect the TTL Index into \<open>ttlMap\<close> with
  \<open>Number(value)\<close>, pick the keys with \<open>new Date().getTime() > ttlInSeconds * 1000\<close>,
  return if there are none, else drop their fields from both index hashes and unlink
  their payload keys. \<open>now\<close> is the clock reading in milliseconds.
\<close>

definition revalidateSharedKeys :: "CreateRedisStringsHandlerOptions \<Rightarrow> int \<Rightarrow> redis
    \<Rightarrow> unit result \<times> redis" where
  "revalidateSharedKeys opts now s =
     (case scan_loop (ttlKey opts) (revalidateTagQuerySize opts)
             (\<lambda>(field, v) ttlMap. Inr (AList.update field (Number_js v) ttlMap))
             0 [] s of
        (Inl e, s1) \<Rightarrow> (Inl e, s1)
      | (Inr ttlMap, s1) \<Rightarrow>
          (let expired = filter (\<lambda>(key, ttlInSeconds).
                                   case ttlInSeconds of
                                     None \<Rightarrow> False
                                   | Some t \<Rightarrow> now > t * 1000) ttlMap;
               tagsAndTtlToDelete = map fst expired;
               keysToDelete = map (\<lambda>(key, ttlInSeconds). keyPrefix opts @ key) expired
           in if tagsAndTtlToDelete = [] then (Inr (), s1)
              else (Inr (),
                    client_unlink keysToDelete
                      (client_hDel (tagsKey opts) tagsAndTtlToDelete
                         (client_hDel (ttlKey opts) tagsAndTtlToDelete s1)))))"

definition assertClientIsReady :: "redis \<Rightarrow> unit result" where
  "assertClientIsReady s = (if \<not> isReady s then Inl ClientNotReady else Inr ())"

text \<open>
  The loop of \<open>get\<close> over the revalidation times read with \<open>HMGET\<close>: at the first
  time that is set and, parsed, greater than \<open>lastModified\<close>, the payload key is
  unlinked and \<open>null\<close> returned.
\<close>

fun check_revalidationTimes :: "CreateRedisStringsHandlerOptions \<Rightarrow> string \<Rightarrow> CacheHandlerValue
    \<Rightarrow> string option list \<Rightarrow> redis \<Rightarrow> CacheHandlerValue option result \<times> redis" where
  "check_revalidationTimes opts key cacheValue [] s = (Inr (Some cacheValue), s)"
| "check_revalidationTimes opts key cacheValue (timeString # rest) s =
     (if (case timeString of
            None \<Rightarrow> False
          | Some t \<Rightarrow> t \<noteq> [] \<and>
                      (case parseInt t of None \<Rightarrow> False | Some n \<Rightarrow> n > lastModified cacheValue))
      then (Inr None, client_unlink [keyPrefix opts @ key] s)
      else check_revalidationTimes opts key cacheValue rest s)"

definition redis_get :: "CreateRedisStringsHandlerOptions \<Rightarrow> Imports \<Rightarrow> int \<Rightarrow> string
    \<Rightarrow> HandlerGetMeta \<Rightarrow> redis \<Rightarrow> CacheHandlerValue option result \<times> redis" where
  "redis_get opts imp now key ctx s =
     (case assertClientIsReady s of
        Inl e \<Rightarrow> (Inl e, s)
      | Inr _ \<Rightarrow>
          (case client_get now (keyPrefix opts @ key) s of
             (None, s1) \<Rightarrow> (Inr None, s1)
           | (Some res, s1) \<Rightarrow>
               if res = [] then (Inr None, s1)
               else (case JSON_parse_value imp res of
                       Inl e \<Rightarrow> (Inl e, s1)
                     | Inr None \<Rightarrow> (Inr None, s1)
                     | Inr (Some cacheValue) \<Rightarrow>
                         (let combinedTags = Array_from_Set (tags cacheValue @ implicitTags ctx)
                          in if length combinedTags = 0 then (Inr (Some cacheValue), s1)
                             else (case client_hmGet (revalidatedTagsKey opts imp) combinedTags s1 of
                                     (revalidationTimes, s2) \<Rightarrow>
                                       check_revalidationTimes opts key cacheValue
                                         revalidationTimes s2)))))"

text \<open>
  \<open>set\<close>: the payload write under the configured expiration strategy, then the Tag
  Index write when there are tags, then the TTL Index write when there is a lifespan.
  The four commands are sent in this order and awaited together.
\<close>

definition redis_set :: "CreateRedisStringsHandlerOptions \<Rightarrow> Imports \<Rightarrow> string
    \<Rightarrow> CacheHandlerValue \<Rightarrow> redis \<Rightarrow> unit result \<times> redis" where
  "redis_set opts imp key cacheHandlerValue s =
     (case assertClientIsReady s of
        Inl e \<Rightarrow> (Inl e, s)
      | Inr _ \<Rightarrow>
          (case (if keyExpirationStrategy opts = ''EXAT''
                 then Inr (client_set (keyPrefix opts @ key)
                             (JSON_stringify_value imp cacheHandlerValue)
                             (map_option expireAt (lifespan cacheHandlerValue)) s)
                 else if keyExpirationStrategy opts = ''EXPIREAT''
                 then Inr (let s1 = client_set (keyPrefix opts @ key)
                                      (JSON_stringify_value imp cacheHandlerValue) None s
                           in case lifespan cacheHandlerValue of
                                None \<Rightarrow> s1
                              | Some l \<Rightarrow> client_expireAt (keyPrefix opts @ key) (expireAt l) s1)
                 else Inl (InvalidKeyExpirationStrategy (keyExpirationStrategy opts))) of
             Inl e \<Rightarrow> (Inl e, s)
           | Inr s2 \<Rightarrow>
               (let s3 = (if length (tags cacheHandlerValue) > 0
                          then client_hSet (tagsKey opts) key
                                 (JSON_stringify_tags imp (tags cacheHandlerValue)) s2
                          else s2);
                    s4 = (case lifespan cacheHandlerValue of
                            None \<Rightarrow> s3
                          | Some l \<Rightarrow> client_hSet (ttlKey opts) key (toString (expireAt l)) s3)
                in (Inr (), s4))))"

text \<open>
  \<open>revalidateTag\<close>: the marker write for an implicit tag, then the two sweeps awaited
  together. Both sweeps only delete, and each deletes a key from the payload store and
  from both indexes at once, so the store they leave does not depend on how their
  commands interleave; the tag sweep is run first here.
\<close>

definition redis_revalidateTag :: "CreateRedisStringsHandlerOptions \<Rightarrow> Imports \<Rightarrow> int \<Rightarrow> string
    \<Rightarrow> redis \<Rightarrow> unit result \<times> redis" where
  "redis_revalidateTag opts imp now tag s =
     (case assertClientIsReady s of
        Inl e \<Rightarrow> (Inl e, s)
      | Inr _ \<Rightarrow>
          (let s1 = (if isImplicitTag imp tag
                     then client_hSet (revalidatedTagsKey opts imp) tag (toString now) s
                     else s)
           in promise_all [revalidateTags opts imp tag, revalidateSharedKeys opts now] s1))"

text \<open>\<open>delete\<close>: three commands, sent without a readiness check.\<close>

definition redis_delete :: "CreateRedisStringsHandlerOptions \<Rightarrow> string \<Rightarrow> redis
    \<Rightarrow> unit result \<times> redis" where
  "redis_delete opts key s =
     (Inr (),
      client_hDel (ttlKey opts) [key]
        (client_hDel (tagsKey opts) [key]
           (client_unlink [keyPrefix opts @ key] s)))"

text \<open>\<open>createHandler\<close> of the handler \<open>apopro-redis-strings\<close>, at the clock reading \<open>now\<close>.\<close>

definition redis_createHandler :: "CreateRedisStringsHandlerOptions \<Rightarrow> Imports \<Rightarrow> int
    \<Rightarrow> redis Handler" where
  "redis_createHandler opts imp now =
     \<lparr> name = ''apopro-redis-strings'',
       get_op = redis_get opts imp now,
       set_op = redis_set opts imp,
       revalidateTag_op = redis_revalidateTag opts imp now,
       delete_op = Some (redis_delete opts) \<rparr>"

section \<open>Notions used in the statements\<close>

text \<open>
  The commands a call sent: what it appended to \<open>issued\<close>.
\<close>

definition issued_by :: "redis \<Rightarrow> redis \<Rightarrow> command list" where
  "issued_by s s' = drop (length (issued s)) (issued s')"

text \<open>
  The payload text a \<open>GET\<close> of the key returns at clock reading \<open>now\<close>.
\<close>

definition stored_payload :: "int \<Rightarrow> string \<Rightarrow> redis \<Rightarrow> string option" where
  "stored_payload now key s = fst (client_get now key s)"

text \<open>
  An entry is revalidated when one of its own tags or of the implicit tags of the context
  has a Revalidation Marker whose integer value is greater than the entry's
  \<open>lastModified\<close>.
\<close>

definition marker_newer :: "int \<Rightarrow> string option \<Rightarrow> bool" where
  "marker_newer lm timeString =
     (case timeString of
        None \<Rightarrow> False
      | Some t \<Rightarrow> (case parseInt t of None \<Rightarrow> False | Some n \<Rightarrow> n > lm))"

definition revalidated :: "CreateRedisStringsHandlerOptions \<Rightarrow> Imports \<Rightarrow> redis
    \<Rightarrow> CacheHandlerValue \<Rightarrow> HandlerGetMeta \<Rightarrow> bool" where
  "revalidated opts imp s cacheValue ctx =
     list_ex (\<lambda>t. marker_newer (lastModified cacheValue)
                    (map_of (hashes s (revalidatedTagsKey opts imp)) t))
       (tags cacheValue @ implicitTags ctx)"

text \<open>
  The keys of the TTL Index whose expiration time, read as a number of seconds, lies
  before the clock reading \<open>now\<close> (milliseconds).
\<close>

definition lapsed :: "int \<Rightarrow> string \<Rightarrow> bool" where
  "lapsed now v = (case Number_js v of None \<Rightarrow> False | Some t \<Rightarrow> t * 1000 < now)"

text \<open>
  Hashes as Redis keeps them: no field twice. The Tag Index as the handler writes it:
  every value is the JSON text of a tag list.
\<close>

definition distinct_fields :: "(string \<times> string) list \<Rightarrow> bool" where
  "distinct_fields h = distinct (map fst h)"

definition tags_parse :: "Imports \<Rightarrow> (string \<times> string) list \<Rightarrow> bool" where
  "tags_parse imp h = list_all (\<lambda>(f, v). case JSON_parse_tags imp v of Inl e \<Rightarrow> False | Inr ts \<Rightarrow> True) h"

text \<open>
  What a sweep that deletes the keys \<open>ks\<close> leaves of the hashes: the fields \<open>ks\<close>
  are gone from the Tag Index and from the TTL Index, every other hash is untouched. The
  keys a tag sweep finds in a Tag Index, and the keys a TTL sweep finds in a TTL Index.
\<close>

definition purge_hashes :: "CreateRedisStringsHandlerOptions \<Rightarrow> string list
    \<Rightarrow> (string \<Rightarrow> (string \<times> string) list) \<Rightarrow> string \<Rightarrow> (string \<times> string) list" where
  "purge_hashes opts ks hs =
     (\<lambda>h. if h = tagsKey opts \<or> h = ttlKey opts
          then filter (\<lambda>(f, v). f \<notin> set ks) (hs h) else hs h)"

definition parsed_tags :: "Imports \<Rightarrow> string \<Rightarrow> string list" where
  "parsed_tags imp v = (case JSON_parse_tags imp v of Inl e \<Rightarrow> [] | Inr ts \<Rightarrow> ts)"

definition tag_hits :: "Imports \<Rightarrow> string \<Rightarrow> (string \<times> string) list \<Rightarrow> string list" where
  "tag_hits imp tag h = map fst (filter (\<lambda>(f, v). tag \<in> set (parsed_tags imp v)) h)"

definition lapsed_keys :: "int \<Rightarrow> (string \<times> string) list \<Rightarrow> string list" where
  "lapsed_keys now h = map fst (filter (\<lambda>(f, v). lapsed now v) h)"

text \<open>The store after the marker write of \<open>revalidateTag\<close>.\<close>

definition marked :: "CreateRedisStringsHandlerOptions \<Rightarrow> Imports \<Rightarrow> int \<Rightarrow> string \<Rightarrow> redis
    \<Rightarrow> redis" where
  "marked opts imp now tag s =
     (if isImplicitTag imp tag
      then client_hSet (revalidatedTagsKey opts imp) tag (toString now) s else s)"

text \<open>
  The stores the handler can produce: starting from empty indexes, any sequence of its
  four operations, at any clock readings, while the connection comes and goes.
\<close>

inductive reachable :: "CreateRedisStringsHandlerOptions \<Rightarrow> Imports \<Rightarrow> redis \<Rightarrow> bool"
  for opts :: CreateRedisStringsHandlerOptions and imp :: Imports where
  start: "hashes s (tagsKey opts) = [] \<Longrightarrow> hashes s (ttlKey opts) = [] \<Longrightarrow> reachable opts imp s"
| connection: "reachable opts imp s \<Longrightarrow> reachable opts imp (s\<lparr>isReady := b\<rparr>)"
| by_get: "reachable opts imp s \<Longrightarrow> reachable opts imp (snd (redis_get opts imp now key ctx s))"
| by_set: "reachable opts imp s \<Longrightarrow> reachable opts imp (snd (redis_set opts imp key cv s))"
| by_revalidateTag:
    "reachable opts imp s \<Longrightarrow> reachable opts imp (snd (redis_revalidateTag opts imp now tag s))"
| by_delete: "reachable opts imp s \<Longrightarrow> reachable opts imp (snd (redis_delete opts key s))"

section \<open>Sample handlers and stores\<close>

text \<open>
  A member handler that answers every \<open>get\<close> with a fixed result and appends each call
  it receives to a shared trace.
\<close>

definition recording_handler :: "string \<Rightarrow> CacheHandlerValue option \<Rightarrow> string list Handler" where
  "recording_handler n answer =
     \<lparr> name = n,
       get_op = (\<lambda>key ctx w. (Inr answer, w @ [n @ ''.get '' @ key])),
       set_op = (\<lambda>key data w. (Inr (), w @ [n @ ''.set '' @ key])),
       revalidateTag_op = (\<lambda>tag w. (Inr (), w @ [n @ ''.revalidateTag '' @ tag])),
       delete_op = None \<rparr>"

definition sample_entry :: CacheHandlerValue where
  "sample_entry = \<lparr> lastModified = 1000, lifespan = Some \<lparr> expireAt = 60 \<rparr>,
                    tags = [''news''], payload = ''page'' \<rparr>"

definition sample_options :: CreateRedisStringsHandlerOptions where
  "sample_options = \<lparr> keyPrefix = ''app:'', sharedTagsKey = ''__sharedTags__'',
                      sharedTagsTtlKey = ''__sharedTagsTtl__'',
                      keyExpirationStrategy = ''EXPIREAT'', revalidateTagQuerySize = 10000 \<rparr>"

text \<open>
  Sample imports: the marker hash name and the implicit-tag test of the host library,
  \<open>JSON.stringify\<close> as a printer for entries and tag lists made of plain characters,
  and \<open>JSON.parse\<close> as the inverse of that printer on a table of known values, throwing
  on every other text.
\<close>

definition quoted :: "string \<Rightarrow> string" where
  "quoted s = CHR 0x22 # s @ [CHR 0x22]"

fun commas :: "string list \<Rightarrow> string" where
  "commas [] = []"
| "commas [x] = x"
| "commas (x # y # zs) = x @ '','' @ commas (y # zs)"

definition print_tags :: "string list \<Rightarrow> string" where
  "print_tags ts = ''['' @ commas (map quoted ts) @ '']''"

definition print_value :: "CacheHandlerValue \<Rightarrow> string" where
  "print_value cv =
     ''{'' @ quoted ''lastModified'' @ '':'' @ toString (lastModified cv) @ '','' @
     quoted ''lifespan'' @ '':'' @
       (case lifespan cv of
          None \<Rightarrow> ''null''
        | Some l \<Rightarrow> ''{'' @ quoted ''expireAt'' @ '':'' @ toString (expireAt l) @ ''}'') @ '','' @
     quoted ''tags'' @ '':'' @ print_tags (tags cv) @ '','' @
     quoted ''value'' @ '':'' @ quoted (payload cv) @ ''}''"

definition parse_by_table :: "('a \<Rightarrow> string) \<Rightarrow> 'a list \<Rightarrow> string \<Rightarrow> 'a result" where
  "parse_by_table print known s =
     (case filter (\<lambda>a. print a = s) known of [] \<Rightarrow> Inl SyntaxError | a # _ \<Rightarrow> Inr a)"

definition sample_untagged :: CacheHandlerValue where
  "sample_untagged = \<lparr> lastModified = 1000, lifespan = Some \<lparr> expireAt = 60 \<rparr>,
                       tags = [], payload = ''page'' \<rparr>"

definition sample_imports :: Imports where
  "sample_imports =
     \<lparr> REVALIDATED_TAGS_KEY = ''__revalidated_tags__'',
       isImplicitTag = (\<lambda>tag. take 5 tag = ''_N_T_''),
       JSON_parse_value =
         (\<lambda>s. if s = ''null'' then Inr None
              else parse_by_table (\<lambda>v. case v of None \<Rightarrow> ''null'' | Some cv \<Rightarrow> print_value cv)
                     [Some sample_entry, Some sample_untagged] s),
       JSON_stringify_value = print_value,
       JSON_parse_tags = parse_by_table print_tags [[], [''news''], [''sport''], [''news'', ''sport'']],
       JSON_stringify_tags = print_tags \<rparr>"

definition empty_store :: redis where
  "empty_store = \<lparr> isReady = True, strings = Map.empty, hashes = (\<lambda>h. []), issued = [] \<rparr>"

text \<open>
  Stores for the examples: one holding the sample entry under key \<open>k\<close> with a
  marker for its tag written after the entry, one holding text that is not JSON.
\<close>

definition stale_store :: redis where
  "stale_store =
     empty_store\<lparr> strings := [''app:k'' \<mapsto> (print_value sample_entry, None)],
                   hashes := (\<lambda>h. [])(''app:__revalidated_tags__'' := [(''news'', ''2000'')]) \<rparr>"

definition malformed_store :: redis where
  "malformed_store = empty_store\<lparr> strings := [''app:k'' \<mapsto> (''{'', None)] \<rparr>"

text \<open>
  A store holding the sample entry under key \<open>old\<close>, written with its tag list and a
  lifespan that ends at second 60.
\<close>

definition lapsed_store :: redis where
  "lapsed_store =
     empty_store\<lparr> strings := [''app:old'' \<mapsto> (print_value sample_entry, Some 60)],
                   hashes := (\<lambda>h. [])(''app:__sharedTags__'' := [(''old'', print_tags [''news''])],
                                        ''app:__sharedTagsTtl__'' := [(''old'', ''60'')]) \<rparr>"
section \<open>Composite handler: reads\<close>

lemma composite_get_all_miss:
  "all_miss hs key ctx w = Some w' \<Longrightarrow> composite_get hs key ctx w = (Inr None, w')"
  by (induction hs arbitrary: w) (auto split: prod.splits sum.splits option.splits)

lemma composite_get_empty_iff:
  "fst (composite_get hs key ctx w) = Inr None \<longleftrightarrow> all_miss hs key ctx w \<noteq> None"
  by (induction hs arbitrary: w) (auto split: prod.splits sum.splits option.splits)

lemma composite_get_append_hit:
  "all_miss pre key ctx w = Some w1 \<Longrightarrow> get_op h key ctx w1 = (Inr (Some v), w2)
   \<Longrightarrow> composite_get (pre @ h # post) key ctx w = (Inr (Some v), w2)"
  by (induction pre arbitrary: w) (auto split: prod.splits sum.splits option.splits)

text \<open>
  C8. The composite \<open>get\<close> asks the members in sequence order. When the members before
  \<open>h\<close> all return empty and \<open>h\<close> returns \<open>v\<close>, the composite returns \<open>v\<close> and
  leaves the world as \<open>h\<close> left it, whatever the later members \<open>post\<close> are: they are
  not consulted. It returns empty exactly when every member returns empty.
\<close>

theorem composite_get_first_non_empty:
  "(all_miss pre key ctx w = Some w1 \<and> get_op h key ctx w1 = (Inr (Some v), w2)
      \<longrightarrow> composite_get (pre @ h # post) key ctx w = (Inr (Some v), w2))
   \<and> (fst (composite_get hs key ctx w) = Inr None \<longleftrightarrow> all_miss hs key ctx w \<noteq> None)"
  by (simp add: composite_get_append_hit composite_get_empty_iff)

theorem composite_get_first_non_empty_witness:
  "all_miss [recording_handler ''A'' None] ''k'' \<lparr>implicitTags = []\<rparr> [] = Some [''A.get k'']
   \<and> get_op (recording_handler ''B'' (Some sample_entry)) ''k'' \<lparr>implicitTags = []\<rparr> [''A.get k'']
       = (Inr (Some sample_entry), [''A.get k'', ''B.get k''])
   \<and> composite_get ([recording_handler ''A'' None] @ recording_handler ''B'' (Some sample_entry)
         # [recording_handler ''C'' None]) ''k'' \<lparr>implicitTags = []\<rparr> []
       = (Inr (Some sample_entry), [''A.get k'', ''B.get k''])
   \<and> fst (composite_get [recording_handler ''A'' None, recording_handler ''C'' None]
         ''k'' \<lparr>implicitTags = []\<rparr> []) = Inr None
   \<and> all_miss [recording_handler ''A'' None, recording_handler ''C'' None]
         ''k'' \<lparr>implicitTags = []\<rparr> [] \<noteq> None"
proof -
  have a: "all_miss [recording_handler ''A'' None] ''k'' \<lparr>implicitTags = []\<rparr> [] = Some [''A.get k'']"
    by (simp add: recording_handler_def)
  have b: "get_op (recording_handler ''B'' (Some sample_entry)) ''k'' \<lparr>implicitTags = []\<rparr> [''A.get k'']
       = (Inr (Some sample_entry), [''A.get k'', ''B.get k''])"
    by (simp add: recording_handler_def)
  have c: "all_miss [recording_handler ''A'' None, recording_handler ''C'' None]
         ''k'' \<lparr>implicitTags = []\<rparr> [] \<noteq> None"
    by (simp add: recording_handler_def)
  show ?thesis
    using a b c
      composite_get_first_non_empty
        [of "[recording_handler ''A'' None]" "''k''" "\<lparr>implicitTags = []\<rparr>" "[]" "[''A.get k'']"
            "recording_handler ''B'' (Some sample_entry)" "sample_entry" "[''A.get k'', ''B.get k'']"
            "[recording_handler ''C'' None]"
            "[recording_handler ''A'' None, recording_handler ''C'' None]"]
    by blast
qed

section \<open>Composite handler: writes\<close>

text \<open>
  C9. For a composite that was constructed (so with at least two members), \<open>set\<close> is
  exactly the \<open>set\<close> of the one member at the placement index: the index the strategy
  returns when that is within the member range, index 0 when there is no strategy or the
  index is out of range. The effect on the world is that member's write and nothing else.
\<close>

theorem composite_set_one_member:
  "composite_createHandler opts = Inr c \<Longrightarrow>
     placement (handlers opts) (setStrategy opts) data < length (handlers opts)
     \<and> set_op c key data w
         = set_op (handlers opts ! placement (handlers opts) (setStrategy opts) data) key data w"
  by (auto simp: composite_createHandler_def composite_set_def placement_def index_opt_def
           split: if_splits option.splits)

theorem composite_set_one_member_witness:
  "composite_createHandler
       \<lparr> handlers = [recording_handler ''A'' None, recording_handler ''B'' None],
         setStrategy = Some (\<lambda>data. if tags data = [] then 7 else 1) \<rparr>
     = Inr \<lparr> name = ''apopro-composite'',
             get_op = composite_get [recording_handler ''A'' None, recording_handler ''B'' None],
             set_op = composite_set [recording_handler ''A'' None, recording_handler ''B'' None]
                        (Some (\<lambda>data. if tags data = [] then 7 else 1)),
             revalidateTag_op =
               composite_revalidateTag [recording_handler ''A'' None, recording_handler ''B'' None],
             delete_op =
               Some (composite_delete [recording_handler ''A'' None, recording_handler ''B'' None]) \<rparr>
   \<and> composite_set [recording_handler ''A'' None, recording_handler ''B'' None]
         (Some (\<lambda>data. if tags data = [] then 7 else 1)) ''k'' sample_entry []
       = (Inr (), [''B.set k''])
   \<and> composite_set [recording_handler ''A'' None, recording_handler ''B'' None]
         (Some (\<lambda>data. if tags data = [] then 7 else 1)) ''k'' (sample_entry\<lparr>tags := []\<rparr>) []
       = (Inr (), [''A.set k''])"
proof -
  let ?hs = "[recording_handler ''A'' None, recording_handler ''B'' None]"
  let ?f = "\<lambda>data. if tags data = [] then (7::int) else 1"
  let ?c = "\<lparr> name = ''apopro-composite'', get_op = composite_get ?hs,
             set_op = composite_set ?hs (Some ?f),
             revalidateTag_op = composite_revalidateTag ?hs,
             delete_op = Some (composite_delete ?hs) \<rparr>"
  have c: "composite_createHandler \<lparr> handlers = ?hs, setStrategy = Some ?f \<rparr> = Inr ?c"
    by (simp add: composite_createHandler_def)
  have p1: "placement ?hs (Some ?f) sample_entry = 1"
    by (simp add: placement_def sample_entry_def)
  have p0: "placement ?hs (Some ?f) (sample_entry\<lparr>tags := []\<rparr>) = 0"
    by (simp add: placement_def sample_entry_def)
  from composite_set_one_member [OF c, of sample_entry "''k''" "[]"] p1
  have "composite_set ?hs (Some ?f) ''k'' sample_entry [] = (Inr (), [''B.set k''])"
    by (simp add: recording_handler_def)
  moreover
  from composite_set_one_member [OF c, of "sample_entry\<lparr>tags := []\<rparr>" "''k''" "[]"] p0
  have "composite_set ?hs (Some ?f) ''k'' (sample_entry\<lparr>tags := []\<rparr>) [] = (Inr (), [''A.set k''])"
    by (simp add: recording_handler_def)
  ultimately show ?thesis using c by simp
qed

section \<open>The store commands\<close>

lemma issue_sel [simp]:
  "isReady (issue c s) = isReady s" "strings (issue c s) = strings s"
  "hashes (issue c s) = hashes s" "issued (issue c s) = issued s @ [c]"
  by (simp_all add: issue_def)

lemma client_set_sel [simp]:
  "isReady (client_set k v x s) = isReady s"
  "strings (client_set k v x s) = (strings s)(k \<mapsto> (v, x))"
  "hashes (client_set k v x s) = hashes s"
  "issued (client_set k v x s) = issued s @ [SET k v x]"
  by (simp_all add: client_set_def)

lemma client_expireAt_sel [simp]:
  "isReady (client_expireAt k t s) = isReady s"
  "strings (client_expireAt k t s) =
     (case strings s k of None \<Rightarrow> strings s | Some (v, x) \<Rightarrow> (strings s)(k \<mapsto> (v, Some t)))"
  "hashes (client_expireAt k t s) = hashes s"
  "issued (client_expireAt k t s) = issued s @ [EXPIREAT k t]"
  by (simp_all add: client_expireAt_def split: option.splits prod.splits)

lemma client_unlink_sel [simp]:
  "isReady (client_unlink ks s) = isReady s"
  "strings (client_unlink ks s) = strings s |` (- set ks)"
  "hashes (client_unlink ks s) = hashes s"
  "issued (client_unlink ks s) = issued s @ [UNLINK ks]"
  by (simp_all add: client_unlink_def)

lemma client_hSet_sel [simp]:
  "isReady (client_hSet h f v s) = isReady s"
  "strings (client_hSet h f v s) = strings s"
  "hashes (client_hSet h f v s) = (hashes s)(h := AList.update f v (hashes s h))"
  "issued (client_hSet h f v s) = issued s @ [HSET h f v]"
  by (simp_all add: client_hSet_def)

lemma client_hDel_sel [simp]:
  "isReady (client_hDel h fs s) = isReady s"
  "strings (client_hDel h fs s) = strings s"
  "hashes (client_hDel h fs s) = (hashes s)(h := filter (\<lambda>(f, v). f \<notin> set fs) (hashes s h))"
  "issued (client_hDel h fs s) = issued s @ [HDEL h fs]"
  by (simp_all add: client_hDel_def)

lemma issued_by_append [simp]: "issued s' = issued s @ cs \<Longrightarrow> issued_by s s' = cs"
  by (simp add: issued_by_def)

section \<open>Reads of the Redis strings handler\<close>

lemma parseInt_Nil [simp]: "parseInt [] = None"
  by (simp add: parseInt_def split_sign_def)

lemma check_revalidationTimes_eq:
  "check_revalidationTimes opts key cv tms s =
     (if list_ex (marker_newer (lastModified cv)) tms
      then (Inr None, client_unlink [keyPrefix opts @ key] s)
      else (Inr (Some cv), s))"
  by (induction tms) (auto simp: marker_newer_def split: option.splits)

lemma set_Array_from_Set [simp]: "set (Array_from_Set xs) = set xs"
  by (simp add: Array_from_Set_def)

lemma Array_from_Set_Nil_iff [simp]: "Array_from_Set xs = [] \<longleftrightarrow> xs = []"
  using set_Array_from_Set [of xs] by (metis set_empty)

lemma redis_get_entry:
  assumes "isReady s"
    and "stored_payload now (keyPrefix opts @ key) s = Some res"
    and "res \<noteq> []"
    and "JSON_parse_value imp res = Inr (Some cv)"
  shows "redis_get opts imp now key ctx s =
     (if tags cv @ implicitTags ctx = [] then (Inr (Some cv), issue (GET (keyPrefix opts @ key)) s)
      else if revalidated opts imp s cv ctx
      then (Inr None,
            client_unlink [keyPrefix opts @ key]
              (issue (HMGET (revalidatedTagsKey opts imp) (Array_from_Set (tags cv @ implicitTags ctx)))
                 (issue (GET (keyPrefix opts @ key)) s)))
      else (Inr (Some cv),
            issue (HMGET (revalidatedTagsKey opts imp) (Array_from_Set (tags cv @ implicitTags ctx)))
              (issue (GET (keyPrefix opts @ key)) s)))"
proof -
  obtain r s1 where g: "client_get now (keyPrefix opts @ key) s = (r, s1)"
    by (cases "client_get now (keyPrefix opts @ key) s")
  with assms(2) have r: "r = Some res" by (simp add: stored_payload_def)
  from g have s1: "s1 = issue (GET (keyPrefix opts @ key)) s" by (simp add: client_get_def)
  have ex: "list_ex (marker_newer (lastModified cv))
              (map (map_of (hashes s (revalidatedTagsKey opts imp)))
                 (Array_from_Set (tags cv @ implicitTags ctx)))
            = revalidated opts imp s cv ctx"
    by (simp add: revalidated_def list_ex_iff)
  show ?thesis
    using assms(1,3,4) g r s1 ex
    by (simp add: redis_get_def assertClientIsReady_def client_hmGet_def
          check_revalidationTimes_eq Let_def del: append_is_Nil_conv)
qed

text \<open>
  C4. A ready client, a payload that is stored, visible and deserializes to an entry, and
  a non-empty union of the entry's tags and the implicit tags: when some tag of the union
  has a marker whose integer value is greater than \<open>lastModified\<close>, \<open>get\<close> unlinks the
  payload key and returns empty; when none has, it returns the entry and leaves the
  payload.
\<close>

theorem get_checks_markers:
  assumes "isReady s"
    and "stored_payload now (keyPrefix opts @ key) s = Some res"
    and "res \<noteq> []"
    and "JSON_parse_value imp res = Inr (Some cv)"
    and "tags cv @ implicitTags ctx \<noteq> []"
  shows "(revalidated opts imp s cv ctx \<longrightarrow>
            fst (redis_get opts imp now key ctx s) = Inr None
          \<and> UNLINK [keyPrefix opts @ key] \<in> set (issued_by s (snd (redis_get opts imp now key ctx s)))
          \<and> strings (snd (redis_get opts imp now key ctx s)) = (strings s)(keyPrefix opts @ key := None))
       \<and> (\<not> revalidated opts imp s cv ctx \<longrightarrow>
            fst (redis_get opts imp now key ctx s) = Inr (Some cv)
          \<and> strings (snd (redis_get opts imp now key ctx s)) = strings s)"
  using assms(5) by (auto simp: redis_get_entry [OF assms(1-4)] restrict_complement_singleton_eq)

text \<open>
  C10. When \<open>get\<close> finds the entry revalidated and deletes it, the payload key is the only
  thing removed: every hash (Tag Index, TTL Index and the Revalidation Markers among them)
  and every other string key are as before.
\<close>

theorem get_stale_removes_only_payload:
  assumes "isReady s"
    and "stored_payload now (keyPrefix opts @ key) s = Some res"
    and "res \<noteq> []"
    and "JSON_parse_value imp res = Inr (Some cv)"
    and "revalidated opts imp s cv ctx"
  shows "hashes (snd (redis_get opts imp now key ctx s)) = hashes s
       \<and> strings (snd (redis_get opts imp now key ctx s)) (keyPrefix opts @ key) = None
       \<and> (\<forall>k. k \<noteq> keyPrefix opts @ key \<longrightarrow>
             strings (snd (redis_get opts imp now key ctx s)) k = strings s k)"
proof -
  from assms(5) have "tags cv @ implicitTags ctx \<noteq> []"
    by (auto simp: revalidated_def)
  then show ?thesis
    using assms(5) by (auto simp: redis_get_entry [OF assms(1-4)] restrict_map_def)
qed

lemma sample_parse_entry:
  "JSON_parse_value sample_imports (print_value sample_entry) = Inr (Some sample_entry)"
  by code_simp

lemma sample_print_nonempty: "print_value cv \<noteq> []"
  by (simp add: print_value_def)

lemma stale_store_payload:
  "stored_payload 0 (keyPrefix sample_options @ ''k'') stale_store = Some (print_value sample_entry)"
  by (simp add: stored_payload_def client_get_def stale_store_def empty_store_def sample_options_def)

lemma stale_store_revalidated:
  "revalidated sample_options sample_imports stale_store sample_entry \<lparr>implicitTags = []\<rparr>"
  by (simp add: revalidated_def marker_newer_def revalidatedTagsKey_def sample_imports_def
        sample_options_def stale_store_def empty_store_def sample_entry_def parseInt_def
        split_sign_def is_space_def is_digit_def dec_val_def digit_val_def)

theorem get_checks_markers_witness:
  "isReady stale_store
   \<and> stored_payload 0 (keyPrefix sample_options @ ''k'') stale_store = Some (print_value sample_entry)
   \<and> print_value sample_entry \<noteq> []
   \<and> JSON_parse_value sample_imports (print_value sample_entry) = Inr (Some sample_entry)
   \<and> tags sample_entry @ implicitTags \<lparr>implicitTags = []\<rparr> \<noteq> []
   \<and> revalidated sample_options sample_imports stale_store sample_entry \<lparr>implicitTags = []\<rparr>
   \<and> fst (redis_get sample_options sample_imports 0 ''k'' \<lparr>implicitTags = []\<rparr> stale_store) = Inr None
   \<and> UNLINK [keyPrefix sample_options @ ''k'']
        \<in> set (issued_by stale_store
                 (snd (redis_get sample_options sample_imports 0 ''k'' \<lparr>implicitTags = []\<rparr> stale_store)))
   \<and> strings (snd (redis_get sample_options sample_imports 0 ''k'' \<lparr>implicitTags = []\<rparr> stale_store))
       = (strings stale_store)(keyPrefix sample_options @ ''k'' := None)"
proof -
  have h1: "isReady stale_store" by (simp add: stale_store_def empty_store_def)
  have h5: "tags sample_entry @ implicitTags \<lparr>implicitTags = []\<rparr> \<noteq> []"
    by (simp add: sample_entry_def)
  show ?thesis
    using get_checks_markers [OF h1 stale_store_payload sample_print_nonempty sample_parse_entry h5]
      h1 h5 stale_store_payload sample_print_nonempty sample_parse_entry stale_store_revalidated
    by blast
qed

theorem get_stale_removes_only_payload_witness:
  "isReady stale_store
   \<and> stored_payload 0 (keyPrefix sample_options @ ''k'') stale_store = Some (print_value sample_entry)
   \<and> print_value sample_entry \<noteq> []
   \<and> JSON_parse_value sample_imports (print_value sample_entry) = Inr (Some sample_entry)
   \<and> revalidated sample_options sample_imports stale_store sample_entry \<lparr>implicitTags = []\<rparr>
   \<and> hashes (snd (redis_get sample_options sample_imports 0 ''k'' \<lparr>implicitTags = []\<rparr> stale_store))
       = hashes stale_store
   \<and> strings (snd (redis_get sample_options sample_imports 0 ''k'' \<lparr>implicitTags = []\<rparr> stale_store))
         (keyPrefix sample_options @ ''k'') = None
   \<and> strings (snd (redis_get sample_options sample_imports 0 ''k'' \<lparr>implicitTags = []\<rparr> stale_store))
         ''app:other'' = strings stale_store ''app:other''"
proof -
  have h1: "isReady stale_store" by (simp add: stale_store_def empty_store_def)
  have k: "''app:other'' \<noteq> keyPrefix sample_options @ ''k''" by (simp add: sample_options_def)
  show ?thesis
    using get_stale_removes_only_payload
            [OF h1 stale_store_payload sample_print_nonempty sample_parse_entry stale_store_revalidated]
      h1 stale_store_payload sample_print_nonempty sample_parse_entry stale_store_revalidated k
    by blast
qed

text \<open>
  C2, as stated, at a stored payload that is not JSON: \<open>get\<close> does not return empty, it
  rejects with the error \<open>JSON.parse\<close> threw.
\<close>

theorem get_malformed_counterexample:
  "isReady malformed_store
   \<and> stored_payload 0 (keyPrefix sample_options @ ''k'') malformed_store = Some ''{''
   \<and> JSON_parse_value sample_imports ''{'' = Inl SyntaxError
   \<and> fst (redis_get sample_options sample_imports 0 ''k'' \<lparr>implicitTags = []\<rparr> malformed_store)
       = Inl SyntaxError
   \<and> fst (redis_get sample_options sample_imports 0 ''k'' \<lparr>implicitTags = []\<rparr> malformed_store)
       \<noteq> Inr None"
  by (simp add: redis_get_def assertClientIsReady_def client_get_def stored_payload_def
        malformed_store_def empty_store_def sample_options_def sample_imports_def
        parse_by_table_def print_value_def quoted_def)

text \<open>
  C2, amended. With a ready client, a stored payload that is non-empty and fails to
  deserialize makes \<open>get\<close> reject with the deserializer's error; \<open>get\<close> returns empty
  when no payload is visible, when it is the empty text, or when it deserializes to
  \<open>null\<close>.
\<close>

theorem get_malformed_raises:
  assumes "isReady s"
  shows "(stored_payload now (keyPrefix opts @ key) s = Some res \<and> res \<noteq> []
            \<and> JSON_parse_value imp res = Inl e
          \<longrightarrow> fst (redis_get opts imp now key ctx s) = Inl e)
       \<and> (stored_payload now (keyPrefix opts @ key) s = None
            \<or> stored_payload now (keyPrefix opts @ key) s = Some []
            \<or> (stored_payload now (keyPrefix opts @ key) s = Some res
                \<and> JSON_parse_value imp res = Inr None)
          \<longrightarrow> fst (redis_get opts imp now key ctx s) = Inr None)"
  using assms
  by (cases "client_get now (keyPrefix opts @ key) s")
     (auto simp: redis_get_def assertClientIsReady_def stored_payload_def
           split: option.splits sum.splits)

theorem get_malformed_raises_witness:
  "isReady malformed_store
   \<and> stored_payload 0 (keyPrefix sample_options @ ''k'') malformed_store = Some ''{''
   \<and> ''{'' \<noteq> []
   \<and> JSON_parse_value sample_imports ''{'' = Inl SyntaxError
   \<and> fst (redis_get sample_options sample_imports 0 ''k'' \<lparr>implicitTags = []\<rparr> malformed_store)
       = Inl SyntaxError
   \<and> stored_payload 0 (keyPrefix sample_options @ ''other'') malformed_store = None
   \<and> fst (redis_get sample_options sample_imports 0 ''other'' \<lparr>implicitTags = []\<rparr> malformed_store)
       = Inr None"
proof -
  have h1: "isReady malformed_store" by (simp add: malformed_store_def empty_store_def)
  have h2: "stored_payload 0 (keyPrefix sample_options @ ''k'') malformed_store = Some ''{''"
    by (simp add: stored_payload_def client_get_def malformed_store_def empty_store_def sample_options_def)
  have h3: "JSON_parse_value sample_imports ''{'' = Inl SyntaxError"
    by (simp add: sample_imports_def parse_by_table_def print_value_def quoted_def)
  have h4: "stored_payload 0 (keyPrefix sample_options @ ''other'') malformed_store = None"
    by (simp add: stored_payload_def client_get_def malformed_store_def empty_store_def sample_options_def)
  show ?thesis
    using get_malformed_raises [OF h1, of 0 sample_options "''k''" "''{''" sample_imports SyntaxError
            "\<lparr>implicitTags = []\<rparr>"]
      get_malformed_raises [OF h1, of 0 sample_options "''other''" "''{''" sample_imports SyntaxError
            "\<lparr>implicitTags = []\<rparr>"]
      h1 h2 h3 h4
    by simp
qed

section \<open>Readiness\<close>

lemma not_ready_fails_fast:
  assumes "\<not> isReady s"
  shows "redis_get opts imp now key ctx s = (Inl ClientNotReady, s)"
    and "redis_set opts imp key cv s = (Inl ClientNotReady, s)"
    and "redis_revalidateTag opts imp now tag s = (Inl ClientNotReady, s)"
  using assms
  by (simp_all add: redis_get_def redis_set_def redis_revalidateTag_def assertClientIsReady_def)

text \<open>
  C3 at \<open>delete\<close>: on a client that is not ready, \<open>delete\<close> does not fail with the
  not-ready error; it sends its three commands.
\<close>

theorem delete_ignores_readiness:
  "\<not> isReady (empty_store\<lparr>isReady := False\<rparr>)
   \<and> fst (redis_delete sample_options ''k'' (empty_store\<lparr>isReady := False\<rparr>)) \<noteq> Inl ClientNotReady
   \<and> issued_by (empty_store\<lparr>isReady := False\<rparr>)
        (snd (redis_delete sample_options ''k'' (empty_store\<lparr>isReady := False\<rparr>)))
       = [UNLINK [''app:k''], HDEL ''app:__sharedTags__'' [''k''], HDEL ''app:__sharedTagsTtl__'' [''k'']]"
  by (simp add: redis_delete_def empty_store_def sample_options_def tagsKey_def ttlKey_def)

section \<open>Writes of the Redis strings handler\<close>

lemma redis_set_issued:
  assumes "isReady s"
    and "keyExpirationStrategy opts = ''EXAT'' \<or> keyExpirationStrategy opts = ''EXPIREAT''"
  shows "fst (redis_set opts imp key cv s) = Inr ()"
    and "issued_by s (snd (redis_set opts imp key cv s)) =
       (if keyExpirationStrategy opts = ''EXAT''
        then [SET (keyPrefix opts @ key) (JSON_stringify_value imp cv) (map_option expireAt (lifespan cv))]
        else SET (keyPrefix opts @ key) (JSON_stringify_value imp cv) None
             # (case lifespan cv of None \<Rightarrow> []
                | Some l \<Rightarrow> [EXPIREAT (keyPrefix opts @ key) (expireAt l)]))
       @ (if tags cv \<noteq> [] then [HSET (tagsKey opts) key (JSON_stringify_tags imp (tags cv))] else [])
       @ (case lifespan cv of None \<Rightarrow> []
          | Some l \<Rightarrow> [HSET (ttlKey opts) key (toString (expireAt l))])"
  using assms
  by (auto simp: redis_set_def assertClientIsReady_def Let_def split: option.splits)

lemma redis_set_ttl_hash:
  assumes "isReady s"
    and "keyExpirationStrategy opts = ''EXAT'' \<or> keyExpirationStrategy opts = ''EXPIREAT''"
    and "lifespan cv = Some l"
  shows "map_of (hashes (snd (redis_set opts imp key cv s)) (ttlKey opts)) key
           = Some (toString (expireAt l))"
  using assms
  by (auto simp: redis_set_def assertClientIsReady_def Let_def update_Some_unfold
           split: option.splits)

text \<open>
  C1, as stated, at an entry with a lifespan and no tags: \<open>set\<close> sends the TTL Index
  write and the TTL Index holds the key afterwards.
\<close>

theorem set_ttl_index_counterexample:
  "isReady empty_store
   \<and> lifespan sample_untagged = Some \<lparr>expireAt = 60\<rparr> \<and> tags sample_untagged = []
   \<and> HSET (ttlKey sample_options) ''k'' ''60''
        \<in> set (issued_by empty_store (snd (redis_set sample_options sample_imports ''k'' sample_untagged empty_store)))
   \<and> map_of (hashes (snd (redis_set sample_options sample_imports ''k'' sample_untagged empty_store))
              (ttlKey sample_options)) ''k'' = Some ''60''"
proof -
  have r: "isReady empty_store" by (simp add: empty_store_def)
  have st: "keyExpirationStrategy sample_options = ''EXAT'' \<or> keyExpirationStrategy sample_options = ''EXPIREAT''"
    by (simp add: sample_options_def)
  have l: "lifespan sample_untagged = Some \<lparr>expireAt = 60\<rparr>" by (simp add: sample_untagged_def)
  have t: "toString 60 = ''60''" by (simp add: toString_def to_digits.simps)
  show ?thesis
    using redis_set_issued(2) [OF r st, of sample_imports "''k''" sample_untagged]
      redis_set_ttl_hash [OF r st l, of sample_imports "''k''"] r l t
    by (simp add: sample_untagged_def)
qed

text \<open>
  C1, amended. With a ready client, a valid expiration strategy and two different index
  hashes, \<open>set\<close> sends a write of the key to the TTL Index exactly when the entry has a
  lifespan, whatever its tags; the value written is the lifespan's \<open>expireAt\<close>, and the
  TTL Index holds it afterwards.
\<close>

theorem set_writes_ttl_iff_lifespan:
  assumes "isReady s"
    and "keyExpirationStrategy opts = ''EXAT'' \<or> keyExpirationStrategy opts = ''EXPIREAT''"
    and "tagsKey opts \<noteq> ttlKey opts"
  shows "((\<exists>v. HSET (ttlKey opts) key v \<in> set (issued_by s (snd (redis_set opts imp key cv s))))
            \<longleftrightarrow> lifespan cv \<noteq> None)
       \<and> (\<forall>l. lifespan cv = Some l \<longrightarrow>
             HSET (ttlKey opts) key (toString (expireAt l))
               \<in> set (issued_by s (snd (redis_set opts imp key cv s)))
           \<and> map_of (hashes (snd (redis_set opts imp key cv s)) (ttlKey opts)) key
               = Some (toString (expireAt l)))"
proof (cases "lifespan cv")
  case None
  then show ?thesis
    using assms(3) by (auto simp: redis_set_issued(2) [OF assms(1,2)])
next
  case (Some l)
  then show ?thesis
    using redis_set_ttl_hash [OF assms(1,2) Some, of imp key]
    by (auto simp: redis_set_issued(2) [OF assms(1,2)])
qed

theorem set_writes_ttl_iff_lifespan_witness:
  "isReady empty_store
   \<and> (keyExpirationStrategy sample_options = ''EXAT'' \<or> keyExpirationStrategy sample_options = ''EXPIREAT'')
   \<and> tagsKey sample_options \<noteq> ttlKey sample_options
   \<and> ((\<exists>v. HSET (ttlKey sample_options) ''k'' v
             \<in> set (issued_by empty_store
                      (snd (redis_set sample_options sample_imports ''k'' sample_untagged empty_store))))
        \<longleftrightarrow> lifespan sample_untagged \<noteq> None)
   \<and> ((\<exists>v. HSET (ttlKey sample_options) ''k'' v
             \<in> set (issued_by empty_store
                      (snd (redis_set sample_options sample_imports ''k''
                              (sample_entry\<lparr>lifespan := None\<rparr>) empty_store))))
        \<longleftrightarrow> lifespan (sample_entry\<lparr>lifespan := None\<rparr>) \<noteq> None)"
proof -
  have r: "isReady empty_store" by (simp add: empty_store_def)
  have st: "keyExpirationStrategy sample_options = ''EXAT'' \<or> keyExpirationStrategy sample_options = ''EXPIREAT''"
    by (simp add: sample_options_def)
  have d: "tagsKey sample_options \<noteq> ttlKey sample_options"
    by (simp add: tagsKey_def ttlKey_def sample_options_def)
  show ?thesis
    using set_writes_ttl_iff_lifespan [OF r st d, of "''k''" sample_imports sample_untagged]
      set_writes_ttl_iff_lifespan [OF r st d, of "''k''" sample_imports "sample_entry\<lparr>lifespan := None\<rparr>"]
      r st d
    by blast
qed

section \<open>The scan loop\<close>

lemma for_of_append:
  "for_of body (xs @ ys) m = (case for_of body xs m of Inl e \<Rightarrow> Inl e | Inr m' \<Rightarrow> for_of body ys m')"
  by (induction xs arbitrary: m) (auto split: sum.splits)

lemma scan_loop_store:
  "isReady (snd (scan_loop h count body cursor m s)) = isReady s
   \<and> strings (snd (scan_loop h count body cursor m s)) = strings s
   \<and> hashes (snd (scan_loop h count body cursor m s)) = hashes s"
proof (induction h count body cursor m s rule: scan_loop.induct)
  case (1 h count body cursor m s)
  show ?case
    using "1.IH"
    by (subst (1 2 3) scan_loop.simps)
       (auto simp: client_hScan_def split: sum.splits prod.splits if_splits)
qed

lemma scan_loop_result:
  "0 < count \<Longrightarrow>
     fst (scan_loop h count body cursor m s) = for_of body (drop cursor (hashes s h)) m"
proof (induction h count body cursor m s rule: scan_loop.induct)
  case (1 h count body cursor m s)
  let ?H = "hashes s h"
  have split: "for_of body (drop cursor ?H) m =
      (case for_of body (take count (drop cursor ?H)) m of
         Inl e \<Rightarrow> Inl e
       | Inr m' \<Rightarrow> for_of body (drop (cursor + count) ?H) m')"
  proof -
    have "take count (drop cursor ?H) @ drop (cursor + count) ?H = drop cursor ?H"
      by (metis append_take_drop_id drop_drop add.commute)
    then show ?thesis
      using for_of_append [of body "take count (drop cursor ?H)" "drop (cursor + count) ?H" m]
      by (simp only:)
  qed
  show ?case
  proof (cases "for_of body (take count (drop cursor ?H)) m")
    case (Inl e)
    then show ?thesis
      using "1.prems" split
      by (subst scan_loop.simps) (simp add: client_hScan_def)
  next
    case (Inr m')
    show ?thesis
    proof (cases "cursor + count < length ?H")
      case True
      have "fst (scan_loop h count body (cursor + count) m' (issue (HSCAN h cursor count) s))
             = for_of body (drop (cursor + count) ?H) m'"
        using "1.IH" "1.prems" True Inr
        by (simp add: client_hScan_def)
      then show ?thesis
        using "1.prems" True Inr split
        by (subst scan_loop.simps) (simp add: client_hScan_def)
    next
      case False
      then have "take count (drop cursor ?H) = drop cursor ?H" by simp
      with Inr have "for_of body (drop cursor ?H) m = Inr m'" by simp
      then show ?thesis
        using "1.prems" False
        by (subst scan_loop.simps) (simp add: client_hScan_def)
    qed
  qed
qed

lemma update_fresh: "f \<notin> fst ` set m \<Longrightarrow> AList.update f x m = m @ [(f, x)]"
  by (induction m) auto

lemma for_of_collect:
  assumes "\<And>f v m. (f, v) \<in> set H \<Longrightarrow> body (f, v) m = Inr (AList.update f (g v) m)"
    and "distinct (map fst H)"
    and "fst ` set H \<inter> fst ` set m = {}"
  shows "for_of body H m = Inr (m @ map (\<lambda>(f, v). (f, g v)) H)"
  using assms
proof (induction H arbitrary: m)
  case Nil
  then show ?case by simp
next
  case (Cons p H)
  obtain f v where p: "p = (f, v)" by (cases p)
  have b: "body (f, v) m = Inr (m @ [(f, g v)])"
    using Cons.prems(1) [of f v m] Cons.prems(3) p by (simp add: update_fresh)
  have "for_of body H (m @ [(f, g v)]) = Inr ((m @ [(f, g v)]) @ map (\<lambda>(f, v). (f, g v)) H)"
    using Cons.prems p by (intro Cons.IH) auto
  then show ?case using b p by simp
qed

section \<open>The two sweeps\<close>

lemma purge_hashes_Nil [simp]: "purge_hashes opts [] hs = hs"
  by (auto simp: purge_hashes_def)

lemma restrict_map_UNIV [simp]: "m |` UNIV = m"
  by (simp add: restrict_map_def)

lemma tag_hits_map:
  "map fst (filter (\<lambda>(key, ts). tag \<in> set ts) (map (\<lambda>(f, v). (f, parsed_tags imp v)) H))
     = tag_hits imp tag H"
  by (induction H) (auto simp: tag_hits_def)

lemma tag_sweep_deletes:
  "hashes (client_hDel (ttlKey opts) ks (client_hDel (tagsKey opts) ks (client_unlink ps s)))
     = purge_hashes opts ks (hashes s)"
  "strings (client_hDel (ttlKey opts) ks (client_hDel (tagsKey opts) ks (client_unlink ps s)))
     = strings s |` (- set ps)"
  "isReady (client_hDel (ttlKey opts) ks (client_hDel (tagsKey opts) ks (client_unlink ps s)))
     = isReady s"
  by (auto simp: purge_hashes_def)

lemma ttl_sweep_deletes:
  "hashes (client_unlink ps (client_hDel (tagsKey opts) ks (client_hDel (ttlKey opts) ks s)))
     = purge_hashes opts ks (hashes s)"
  "strings (client_unlink ps (client_hDel (tagsKey opts) ks (client_hDel (ttlKey opts) ks s)))
     = strings s |` (- set ps)"
  "isReady (client_unlink ps (client_hDel (tagsKey opts) ks (client_hDel (ttlKey opts) ks s)))
     = isReady s"
  by (auto simp: purge_hashes_def)

lemma prefixed_keys: "map (\<lambda>(key, x). p @ key) xs = map ((@) p) (map fst xs)"
  by (induction xs) auto

lemma revalidateTags_purges:
  "\<exists>ks. isReady (snd (revalidateTags opts imp tag s)) = isReady s
      \<and> strings (snd (revalidateTags opts imp tag s))
          = strings s |` (- set (map ((@) (keyPrefix opts)) ks))
      \<and> hashes (snd (revalidateTags opts imp tag s)) = purge_hashes opts ks (hashes s)"
proof -
  let ?body = "\<lambda>(field, v) tagsMap.
                case JSON_parse_tags imp v of
                  Inl e \<Rightarrow> Inl e
                | Inr ts \<Rightarrow> Inr (AList.update field ts tagsMap)"
  obtain r s1 where sc: "scan_loop (tagsKey opts) (revalidateTagQuerySize opts) ?body 0 [] s = (r, s1)"
    by (cases "scan_loop (tagsKey opts) (revalidateTagQuerySize opts) ?body 0 [] s")
  have st: "isReady s1 = isReady s" "strings s1 = strings s" "hashes s1 = hashes s"
    using scan_loop_store [of "tagsKey opts" "revalidateTagQuerySize opts" ?body 0 "[]" s] sc
    by simp_all
  show ?thesis
  proof (cases r)
    case (Inl e)
    then have "snd (revalidateTags opts imp tag s) = s1"
      using sc by (simp add: revalidateTags_def)
    then show ?thesis using st by (intro exI [of _ "[]"]) simp
  next
    case (Inr tagsMap)
    let ?hits = "filter (\<lambda>(key, ts). tag \<in> set ts) tagsMap"
    show ?thesis
    proof (cases "?hits = []")
      case True
      then have "snd (revalidateTags opts imp tag s) = s1"
        using sc Inr by (simp add: revalidateTags_def)
      then show ?thesis using st by (intro exI [of _ "[]"]) simp
    next
      case False
      then have "snd (revalidateTags opts imp tag s) =
          client_hDel (ttlKey opts) (map fst ?hits)
            (client_hDel (tagsKey opts) (map fst ?hits)
               (client_unlink (map ((@) (keyPrefix opts)) (map fst ?hits)) s1))"
        using sc Inr by (simp add: revalidateTags_def Let_def prefixed_keys)
      then show ?thesis
        using st
        by (intro exI [of _ "map fst ?hits"])
           (simp add: tag_sweep_deletes del: client_hDel_sel client_unlink_sel)
    qed
  qed
qed

lemma revalidateTags_exact:
  assumes "0 < revalidateTagQuerySize opts"
    and "distinct_fields (hashes s (tagsKey opts))"
    and "tags_parse imp (hashes s (tagsKey opts))"
  shows "fst (revalidateTags opts imp tag s) = Inr ()"
    and "isReady (snd (revalidateTags opts imp tag s)) = isReady s"
    and "strings (snd (revalidateTags opts imp tag s))
          = strings s |` (- set (map ((@) (keyPrefix opts)) (tag_hits imp tag (hashes s (tagsKey opts)))))"
    and "hashes (snd (revalidateTags opts imp tag s))
          = purge_hashes opts (tag_hits imp tag (hashes s (tagsKey opts))) (hashes s)"
proof -
  let ?H = "hashes s (tagsKey opts)"
  let ?body = "\<lambda>(field, v) tagsMap.
                case JSON_parse_tags imp v of
                  Inl e \<Rightarrow> Inl e
                | Inr ts \<Rightarrow> Inr (AList.update field ts tagsMap)"
  let ?tagsMap = "map (\<lambda>(f, v). (f, parsed_tags imp v)) ?H"
  obtain r s1 where sc: "scan_loop (tagsKey opts) (revalidateTagQuerySize opts) ?body 0 [] s = (r, s1)"
    by (cases "scan_loop (tagsKey opts) (revalidateTagQuerySize opts) ?body 0 [] s")
  have st: "isReady s1 = isReady s" "strings s1 = strings s" "hashes s1 = hashes s"
    using scan_loop_store [of "tagsKey opts" "revalidateTagQuerySize opts" ?body 0 "[]" s] sc
    by simp_all
  have b: "\<And>f v m. (f, v) \<in> set ?H \<Longrightarrow> ?body (f, v) m = Inr (AList.update f (parsed_tags imp v) m)"
    using assms(3) by (auto simp: tags_parse_def parsed_tags_def list_all_iff split: sum.splits)
  have "for_of ?body ?H [] = Inr ([] @ ?tagsMap)"
    using assms(2) by (intro for_of_collect [OF b]) (simp_all add: distinct_fields_def)
  then have r: "r = Inr ?tagsMap"
    using scan_loop_result [OF assms(1), of "tagsKey opts" ?body 0 "[]" s] sc by simp
  let ?hits = "filter (\<lambda>(key, ts). tag \<in> set ts) ?tagsMap"
  have hits: "map fst ?hits = tag_hits imp tag ?H"
    by (rule tag_hits_map)
  have res: "revalidateTags opts imp tag s =
      (if ?hits = [] then (Inr (), s1)
       else (Inr (),
             client_hDel (ttlKey opts) (map fst ?hits)
               (client_hDel (tagsKey opts) (map fst ?hits)
                  (client_unlink (map ((@) (keyPrefix opts)) (map fst ?hits)) s1))))"
    using sc r by (simp add: revalidateTags_def Let_def prefixed_keys)
  show "fst (revalidateTags opts imp tag s) = Inr ()"
    by (simp add: res)
  show "isReady (snd (revalidateTags opts imp tag s)) = isReady s"
    using st by (simp add: res)
  show "strings (snd (revalidateTags opts imp tag s))
          = strings s |` (- set (map ((@) (keyPrefix opts)) (tag_hits imp tag ?H)))"
  proof (cases "?hits = []")
    case True
    with hits have "tag_hits imp tag ?H = []" by simp
    with True st show ?thesis by (simp add: res)
  next
    case False
    with st hits show ?thesis
      by (simp add: res tag_sweep_deletes del: client_hDel_sel client_unlink_sel)
  qed
  show "hashes (snd (revalidateTags opts imp tag s))
          = purge_hashes opts (tag_hits imp tag ?H) (hashes s)"
  proof (cases "?hits = []")
    case True
    with hits have "tag_hits imp tag ?H = []" by simp
    with True st show ?thesis by (simp add: res)
  next
    case False
    with st hits show ?thesis
      by (simp add: res tag_sweep_deletes del: client_hDel_sel client_unlink_sel)
  qed
qed

lemma lapsed_keys_map:
  "map fst (filter (\<lambda>(key, ttlInSeconds). case ttlInSeconds of None \<Rightarrow> False | Some t \<Rightarrow> now > t * 1000)
              (map (\<lambda>(f, v). (f, Number_js v)) H))
     = lapsed_keys now H"
  by (induction H) (auto simp: lapsed_keys_def lapsed_def split: option.splits)

lemma revalidateSharedKeys_exact:
  assumes "0 < revalidateTagQuerySize opts"
    and "distinct_fields (hashes s (ttlKey opts))"
  shows "fst (revalidateSharedKeys opts now s) = Inr ()"
    and "isReady (snd (revalidateSharedKeys opts now s)) = isReady s"
    and "strings (snd (revalidateSharedKeys opts now s))
          = strings s |` (- set (map ((@) (keyPrefix opts)) (lapsed_keys now (hashes s (ttlKey opts)))))"
    and "hashes (snd (revalidateSharedKeys opts now s))
          = purge_hashes opts (lapsed_keys now (hashes s (ttlKey opts))) (hashes s)"
proof -
  let ?H = "hashes s (ttlKey opts)"
  let ?body = "\<lambda>(field, v) ttlMap. Inr (AList.update field (Number_js v) ttlMap) :: (string \<times> int option) list result"
  let ?ttlMap = "map (\<lambda>(f, v). (f, Number_js v)) ?H"
  obtain r s1 where sc: "scan_loop (ttlKey opts) (revalidateTagQuerySize opts) ?body 0 [] s = (r, s1)"
    by (cases "scan_loop (ttlKey opts) (revalidateTagQuerySize opts) ?body 0 [] s")
  have st: "isReady s1 = isReady s" "strings s1 = strings s" "hashes s1 = hashes s"
    using scan_loop_store [of "ttlKey opts" "revalidateTagQuerySize opts" ?body 0 "[]" s] sc
    by simp_all
  have "for_of ?body ?H [] = Inr ([] @ ?ttlMap)"
    using assms(2) by (intro for_of_collect) (simp_all add: distinct_fields_def)
  then have r: "r = Inr ?ttlMap"
    using scan_loop_result [OF assms(1), of "ttlKey opts" ?body 0 "[]" s] sc by simp
  let ?expired = "filter (\<lambda>(key, ttlInSeconds). case ttlInSeconds of None \<Rightarrow> False | Some t \<Rightarrow> now > t * 1000) ?ttlMap"
  have ex: "map fst ?expired = lapsed_keys now ?H"
    by (rule lapsed_keys_map)
  have res: "revalidateSharedKeys opts now s =
      (if ?expired = [] then (Inr (), s1)
       else (Inr (),
             client_unlink (map ((@) (keyPrefix opts)) (map fst ?expired))
               (client_hDel (tagsKey opts) (map fst ?expired)
                  (client_hDel (ttlKey opts) (map fst ?expired) s1))))"
    using sc r by (simp add: revalidateSharedKeys_def Let_def prefixed_keys)
  show "fst (revalidateSharedKeys opts now s) = Inr ()"
    by (simp add: res)
  show "isReady (snd (revalidateSharedKeys opts now s)) = isReady s"
    using st by (simp add: res)
  show "strings (snd (revalidateSharedKeys opts now s))
          = strings s |` (- set (map ((@) (keyPrefix opts)) (lapsed_keys now ?H)))"
  proof (cases "?expired = []")
    case True
    with ex have "lapsed_keys now ?H = []" by simp
    with True st show ?thesis by (simp add: res)
  next
    case False
    with st ex show ?thesis
      by (simp add: res ttl_sweep_deletes del: client_hDel_sel client_unlink_sel)
  qed
  show "hashes (snd (revalidateSharedKeys opts now s))
          = purge_hashes opts (lapsed_keys now ?H) (hashes s)"
  proof (cases "?expired = []")
    case True
    with ex have "lapsed_keys now ?H = []" by simp
    with True st show ?thesis by (simp add: res)
  next
    case False
    with st ex show ?thesis
      by (simp add: res ttl_sweep_deletes del: client_hDel_sel client_unlink_sel)
  qed
qed

section \<open>Revalidation\<close>

lemma promise_all_two:
  "snd (promise_all [a, b] s) = snd (b (snd (a s)))"
  "fst (promise_all [a, b] s) = (case fst (a s) of Inl e \<Rightarrow> Inl e | Inr u \<Rightarrow> fst (b (snd (a s))))"
  by (auto split: prod.splits sum.splits)

lemma redis_revalidateTag_ready:
  assumes "isReady s"
  shows "snd (redis_revalidateTag opts imp now tag s)
           = snd (revalidateSharedKeys opts now (snd (revalidateTags opts imp tag (marked opts imp now tag s))))"
    and "fst (redis_revalidateTag opts imp now tag s)
           = (case fst (revalidateTags opts imp tag (marked opts imp now tag s)) of
                Inl e \<Rightarrow> Inl e
              | Inr u \<Rightarrow> fst (revalidateSharedKeys opts now
                                (snd (revalidateTags opts imp tag (marked opts imp now tag s)))))"
  using assms
  by (simp_all add: redis_revalidateTag_def assertClientIsReady_def marked_def Let_def
        promise_all_two del: promise_all.simps split: sum.splits)

lemma marked_sel:
  "isReady (marked opts imp now tag s) = isReady s"
  "strings (marked opts imp now tag s) = strings s"
  "h \<noteq> revalidatedTagsKey opts imp \<Longrightarrow> hashes (marked opts imp now tag s) h = hashes s h"
  by (simp_all add: marked_def)

lemma distinct_fields_filter: "distinct_fields h \<Longrightarrow> distinct_fields (filter P h)"
  by (simp add: distinct_fields_def distinct_map_filter)

lemma purge_hashes_index:
  "purge_hashes opts ks hs (tagsKey opts) = filter (\<lambda>(f, v). f \<notin> set ks) (hs (tagsKey opts))"
  "purge_hashes opts ks hs (ttlKey opts) = filter (\<lambda>(f, v). f \<notin> set ks) (hs (ttlKey opts))"
  by (simp_all add: purge_hashes_def)

lemma lapsed_keys_mem: "(k, v) \<in> set h \<Longrightarrow> lapsed now v \<Longrightarrow> k \<in> set (lapsed_keys now h)"
  by (force simp: lapsed_keys_def)

text \<open>
  C5. A ready client, a positive scan page size, a marker hash that is not the TTL Index,
  and a TTL Index (without repeated fields) holding key \<open>k\<close> with an expiration time
  before \<open>now\<close>: after \<open>revalidateTag\<close> of any tag at \<open>now\<close>, \<open>k\<close> is in neither
  index and its payload key is gone. When moreover the Tag Index is well formed, the call
  returns without error.
\<close>

theorem revalidateTag_collects_lapsed:
  assumes "isReady s"
    and "0 < revalidateTagQuerySize opts"
    and "revalidatedTagsKey opts imp \<noteq> ttlKey opts"
    and "distinct_fields (hashes s (ttlKey opts))"
    and "(k, v) \<in> set (hashes s (ttlKey opts))"
    and "lapsed now v"
  shows "k \<notin> fst ` set (hashes (snd (redis_revalidateTag opts imp now tag s)) (tagsKey opts))
       \<and> k \<notin> fst ` set (hashes (snd (redis_revalidateTag opts imp now tag s)) (ttlKey opts))
       \<and> strings (snd (redis_revalidateTag opts imp now tag s)) (keyPrefix opts @ k) = None
       \<and> (revalidatedTagsKey opts imp \<noteq> tagsKey opts
            \<and> distinct_fields (hashes s (tagsKey opts)) \<and> tags_parse imp (hashes s (tagsKey opts))
          \<longrightarrow> fst (redis_revalidateTag opts imp now tag s) = Inr ())"
proof -
  let ?sA = "marked opts imp now tag s"
  let ?sB = "snd (revalidateTags opts imp tag ?sA)"
  let ?sC = "snd (revalidateSharedKeys opts now ?sB)"
  have sC: "snd (redis_revalidateTag opts imp now tag s) = ?sC"
    by (rule redis_revalidateTag_ready(1) [OF assms(1)])
  have ttlA: "hashes ?sA (ttlKey opts) = hashes s (ttlKey opts)"
    using assms(3) by (simp add: marked_sel)
  obtain D where D:
    "strings ?sB = strings ?sA |` (- set (map ((@) (keyPrefix opts)) D))"
    "hashes ?sB = purge_hashes opts D (hashes ?sA)"
    using revalidateTags_purges [of opts imp tag ?sA] by blast
  have ttlB: "hashes ?sB (ttlKey opts) = filter (\<lambda>(f, v). f \<notin> set D) (hashes s (ttlKey opts))"
    by (simp add: D(2) purge_hashes_index ttlA)
  have dB: "distinct_fields (hashes ?sB (ttlKey opts))"
    by (simp add: ttlB distinct_fields_filter assms(4))
  let ?E = "lapsed_keys now (hashes ?sB (ttlKey opts))"
  have hC: "hashes ?sC = purge_hashes opts ?E (hashes ?sB)"
    and stC: "strings ?sC = strings ?sB |` (- set (map ((@) (keyPrefix opts)) ?E))"
    using revalidateSharedKeys_exact(3,4) [OF assms(2) dB] by simp_all
  have k: "k \<in> set D \<or> k \<in> set ?E"
  proof (cases "k \<in> set D")
    case True
    then show ?thesis by simp
  next
    case False
    with assms(5) have "(k, v) \<in> set (hashes ?sB (ttlKey opts))"
      by (simp add: ttlB)
    then show ?thesis using assms(6) by (simp add: lapsed_keys_mem)
  qed
  have 1: "k \<notin> fst ` set (hashes ?sC (tagsKey opts))"
    using k by (auto simp: hC D(2) purge_hashes_index)
  have 2: "k \<notin> fst ` set (hashes ?sC (ttlKey opts))"
    using k by (auto simp: hC D(2) purge_hashes_index)
  have 3: "strings ?sC (keyPrefix opts @ k) = None"
    using k by (auto simp: stC D(1) restrict_map_def)
  have 4: "fst (redis_revalidateTag opts imp now tag s) = Inr ()"
    if w: "revalidatedTagsKey opts imp \<noteq> tagsKey opts"
      "distinct_fields (hashes s (tagsKey opts))" "tags_parse imp (hashes s (tagsKey opts))"
  proof -
    have tA: "hashes ?sA (tagsKey opts) = hashes s (tagsKey opts)"
      using w(1) by (simp add: marked_sel)
    have "fst (revalidateTags opts imp tag ?sA) = Inr ()"
      using revalidateTags_exact(1) [OF assms(2), of ?sA imp tag] w(2,3) tA by simp
    moreover have "fst (revalidateSharedKeys opts now ?sB) = Inr ()"
      by (rule revalidateSharedKeys_exact(1) [OF assms(2) dB])
    ultimately show ?thesis
      by (simp add: redis_revalidateTag_ready(2) [OF assms(1)])
  qed
  show ?thesis using 1 2 3 4 by (simp add: sC)
qed

theorem revalidateTag_collects_lapsed_witness:
  "isReady lapsed_store
   \<and> 0 < revalidateTagQuerySize sample_options
   \<and> revalidatedTagsKey sample_options sample_imports \<noteq> ttlKey sample_options
   \<and> distinct_fields (hashes lapsed_store (ttlKey sample_options))
   \<and> (''old'', ''60'') \<in> set (hashes lapsed_store (ttlKey sample_options))
   \<and> lapsed 100000 ''60''
   \<and> revalidatedTagsKey sample_options sample_imports \<noteq> tagsKey sample_options
   \<and> distinct_fields (hashes lapsed_store (tagsKey sample_options))
   \<and> tags_parse sample_imports (hashes lapsed_store (tagsKey sample_options))
   \<and> ''old'' \<notin> fst ` set (hashes (snd (redis_revalidateTag sample_options sample_imports 100000 ''sport'' lapsed_store))
                              (tagsKey sample_options))
   \<and> ''old'' \<notin> fst ` set (hashes (snd (redis_revalidateTag sample_options sample_imports 100000 ''sport'' lapsed_store))
                              (ttlKey sample_options))
   \<and> strings (snd (redis_revalidateTag sample_options sample_imports 100000 ''sport'' lapsed_store))
        (keyPrefix sample_options @ ''old'') = None
   \<and> fst (redis_revalidateTag sample_options sample_imports 100000 ''sport'' lapsed_store) = Inr ()"
proof -
  have h1: "isReady lapsed_store" by (simp add: lapsed_store_def empty_store_def)
  have h2: "0 < revalidateTagQuerySize sample_options" by (simp add: sample_options_def)
  have h3: "revalidatedTagsKey sample_options sample_imports \<noteq> ttlKey sample_options"
    by (simp add: revalidatedTagsKey_def ttlKey_def sample_options_def sample_imports_def)
  have ttl: "hashes lapsed_store (ttlKey sample_options) = [(''old'', ''60'')]"
    by (simp add: lapsed_store_def empty_store_def ttlKey_def sample_options_def)
  have tg: "hashes lapsed_store (tagsKey sample_options) = [(''old'', print_tags [''news''])]"
    by (simp add: lapsed_store_def empty_store_def tagsKey_def sample_options_def)
  have h4: "distinct_fields (hashes lapsed_store (ttlKey sample_options))"
    by (simp add: ttl distinct_fields_def)
  have h5: "(''old'', ''60'') \<in> set (hashes lapsed_store (ttlKey sample_options))"
    by (simp add: ttl)
  have h6: "lapsed 100000 ''60''"
    by (simp add: lapsed_def Number_js_def split_sign_def is_space_def is_digit_def
          dec_val_def digit_val_def)
  have h7: "revalidatedTagsKey sample_options sample_imports \<noteq> tagsKey sample_options"
    by (simp add: revalidatedTagsKey_def tagsKey_def sample_options_def sample_imports_def)
  have h8: "distinct_fields (hashes lapsed_store (tagsKey sample_options))"
    by (simp add: tg distinct_fields_def)
  have h9: "tags_parse sample_imports (hashes lapsed_store (tagsKey sample_options))"
    by (simp add: tg tags_parse_def sample_imports_def parse_by_table_def print_tags_def quoted_def)
  show ?thesis
    using revalidateTag_collects_lapsed [OF h1 h2 h3 h4 h5 h6, of "''sport''"]
      h1 h2 h3 h4 h5 h6 h7 h8 h9
    by blast
qed

section \<open>Write, then read\<close>

lemma redis_set_store:
  assumes "isReady s"
    and "keyExpirationStrategy opts = ''EXAT'' \<or> keyExpirationStrategy opts = ''EXPIREAT''"
  shows "isReady (snd (redis_set opts imp key cv s))"
    and "strings (snd (redis_set opts imp key cv s)) (keyPrefix opts @ key)
           = Some (JSON_stringify_value imp cv, map_option expireAt (lifespan cv))"
    and "h \<noteq> tagsKey opts \<Longrightarrow> h \<noteq> ttlKey opts
           \<Longrightarrow> hashes (snd (redis_set opts imp key cv s)) h = hashes s h"
  using assms
  by (auto simp: redis_set_def assertClientIsReady_def Let_def split: option.splits)

text \<open>
  C6. A ready client, a valid expiration strategy, a marker hash that is neither index,
  and an entry \<open>e\<close> whose JSON text is not empty and deserializes to \<open>e\<close> again (no
  volatile field is lost): when no tag of \<open>e\<close> or of the context has a marker greater
  than \<open>e\<close>'s \<open>lastModified\<close> and the lifespan of \<open>e\<close>, if any, has not ended at
  \<open>now\<close>, \<open>set\<close> succeeds and the \<open>get\<close> that follows it at \<open>now\<close> returns \<open>e\<close>.
\<close>

theorem set_get_round_trip:
  assumes "isReady s"
    and "keyExpirationStrategy opts = ''EXAT'' \<or> keyExpirationStrategy opts = ''EXPIREAT''"
    and "revalidatedTagsKey opts imp \<noteq> tagsKey opts"
    and "revalidatedTagsKey opts imp \<noteq> ttlKey opts"
    and "JSON_stringify_value imp e \<noteq> []"
    and "JSON_parse_value imp (JSON_stringify_value imp e) = Inr (Some e)"
    and "\<not> revalidated opts imp s e ctx"
    and "case lifespan e of None \<Rightarrow> True | Some l \<Rightarrow> now < expireAt l * 1000"
  shows "fst (redis_set opts imp key e s) = Inr ()
       \<and> fst (redis_get opts imp now key ctx (snd (redis_set opts imp key e s))) = Inr (Some e)"
proof -
  let ?s1 = "snd (redis_set opts imp key e s)"
  note st = redis_set_store [OF assms(1,2)]
  have p: "stored_payload now (keyPrefix opts @ key) ?s1 = Some (JSON_stringify_value imp e)"
    using assms(8) st(2)
    by (auto simp: stored_payload_def client_get_def split: option.splits)
  have "hashes ?s1 (revalidatedTagsKey opts imp) = hashes s (revalidatedTagsKey opts imp)"
    using assms(3,4) by (rule st(3))
  then have r: "\<not> revalidated opts imp ?s1 e ctx"
    using assms(7) by (simp add: revalidated_def)
  show ?thesis
    using r redis_set_issued(1) [OF assms(1,2)]
    by (simp add: redis_get_entry [OF st(1) p assms(5,6)])
qed

theorem set_get_round_trip_witness:
  "isReady empty_store
   \<and> (keyExpirationStrategy sample_options = ''EXAT'' \<or> keyExpirationStrategy sample_options = ''EXPIREAT'')
   \<and> revalidatedTagsKey sample_options sample_imports \<noteq> tagsKey sample_options
   \<and> revalidatedTagsKey sample_options sample_imports \<noteq> ttlKey sample_options
   \<and> JSON_stringify_value sample_imports sample_entry \<noteq> []
   \<and> JSON_parse_value sample_imports (JSON_stringify_value sample_imports sample_entry)
       = Inr (Some sample_entry)
   \<and> \<not> revalidated sample_options sample_imports empty_store sample_entry \<lparr>implicitTags = [''_N_T_/'']\<rparr>
   \<and> (case lifespan sample_entry of None \<Rightarrow> True | Some l \<Rightarrow> 2000 < expireAt l * 1000)
   \<and> fst (redis_set sample_options sample_imports ''k'' sample_entry empty_store) = Inr ()
   \<and> fst (redis_get sample_options sample_imports 2000 ''k'' \<lparr>implicitTags = [''_N_T_/'']\<rparr>
             (snd (redis_set sample_options sample_imports ''k'' sample_entry empty_store)))
       = Inr (Some sample_entry)"
proof -
  have h1: "isReady empty_store" by (simp add: empty_store_def)
  have h2: "keyExpirationStrategy sample_options = ''EXAT'' \<or> keyExpirationStrategy sample_options = ''EXPIREAT''"
    by (simp add: sample_options_def)
  have h3: "revalidatedTagsKey sample_options sample_imports \<noteq> tagsKey sample_options"
    by (simp add: revalidatedTagsKey_def tagsKey_def sample_options_def sample_imports_def)
  have h4: "revalidatedTagsKey sample_options sample_imports \<noteq> ttlKey sample_options"
    by (simp add: revalidatedTagsKey_def ttlKey_def sample_options_def sample_imports_def)
  have js: "JSON_stringify_value sample_imports = print_value" by (simp add: sample_imports_def)
  have h5: "JSON_stringify_value sample_imports sample_entry \<noteq> []"
    by (simp add: js sample_print_nonempty)
  have h6: "JSON_parse_value sample_imports (JSON_stringify_value sample_imports sample_entry)
       = Inr (Some sample_entry)"
    by (simp add: js sample_parse_entry)
  have h7: "\<not> revalidated sample_options sample_imports empty_store sample_entry \<lparr>implicitTags = [''_N_T_/'']\<rparr>"
    by (simp add: revalidated_def marker_newer_def empty_store_def sample_entry_def)
  have h8: "case lifespan sample_entry of None \<Rightarrow> True | Some l \<Rightarrow> 2000 < expireAt l * 1000"
    by (simp add: sample_entry_def)
  show ?thesis
    using set_get_round_trip [OF h1 h2 h3 h4 h5 h6 h7 h8, of "''k''"]
      h1 h2 h3 h4 h5 h6 h7 h8
    by blast
qed

section \<open>Revalidating twice\<close>

lemma tags_parse_filter: "tags_parse imp h \<Longrightarrow> tags_parse imp (filter P h)"
  by (simp add: tags_parse_def list_all_iff)


lemma marked_twice:
  assumes "hashes s' (revalidatedTagsKey opts imp) = hashes (marked opts imp now tag s) (revalidatedTagsKey opts imp)"
  shows "hashes (marked opts imp now tag s') = hashes s'"
  using assms by (auto simp: marked_def)




section \<open>Numbers written and read back\<close>








section \<open>Revalidating twice: the clock\<close>













section \<open>Stores the handler produces\<close>

lemma redis_get_hashes: "hashes (snd (redis_get opts imp now key ctx s)) = hashes s"
  by (cases "client_get now (keyPrefix opts @ key) s")
     (auto simp: redis_get_def assertClientIsReady_def client_get_def client_hmGet_def
        check_revalidationTimes_eq Let_def
        split: sum.splits option.splits prod.splits if_splits)

lemma revalidateSharedKeys_purges:
  "\<exists>ks. hashes (snd (revalidateSharedKeys opts now s)) = purge_hashes opts ks (hashes s)"
proof -
  let ?body = "\<lambda>(field, v) ttlMap. Inr (AList.update field (Number_js v) ttlMap) :: (string \<times> int option) list result"
  obtain r s1 where sc: "scan_loop (ttlKey opts) (revalidateTagQuerySize opts) ?body 0 [] s = (r, s1)"
    by (cases "scan_loop (ttlKey opts) (revalidateTagQuerySize opts) ?body 0 [] s")
  have st: "hashes s1 = hashes s"
    using scan_loop_store [of "ttlKey opts" "revalidateTagQuerySize opts" ?body 0 "[]" s] sc
    by simp
  show ?thesis
  proof (cases r)
    case (Inl e)
    then have "snd (revalidateSharedKeys opts now s) = s1"
      using sc by (simp add: revalidateSharedKeys_def)
    then show ?thesis using st by (intro exI [of _ "[]"]) simp
  next
    case (Inr ttlMap)
    let ?expired = "filter (\<lambda>(key, ttlInSeconds). case ttlInSeconds of None \<Rightarrow> False | Some t \<Rightarrow> now > t * 1000) ttlMap"
    show ?thesis
    proof (cases "?expired = []")
      case True
      then have "snd (revalidateSharedKeys opts now s) = s1"
        using sc Inr by (simp add: revalidateSharedKeys_def)
      then show ?thesis using st by (intro exI [of _ "[]"]) simp
    next
      case False
      then have "snd (revalidateSharedKeys opts now s) =
          client_unlink (map ((@) (keyPrefix opts)) (map fst ?expired))
            (client_hDel (tagsKey opts) (map fst ?expired)
               (client_hDel (ttlKey opts) (map fst ?expired) s1))"
        using sc Inr by (simp add: revalidateSharedKeys_def Let_def prefixed_keys)
      then show ?thesis
        using st
        by (intro exI [of _ "map fst ?expired"])
           (simp add: ttl_sweep_deletes del: client_hDel_sel client_unlink_sel)
    qed
  qed
qed

lemma tags_parse_update:
  "tags_parse imp h \<Longrightarrow> JSON_parse_tags imp v = Inr ts \<Longrightarrow> tags_parse imp (AList.update f v h)"
  by (induction h) (auto simp: tags_parse_def)

lemma distinct_fields_update: "distinct_fields h \<Longrightarrow> distinct_fields (AList.update f v h)"
  by (simp add: distinct_fields_def distinct_update)

lemma reachable_well_formed:
  assumes names: "revalidatedTagsKey opts imp \<noteq> tagsKey opts"
      "revalidatedTagsKey opts imp \<noteq> ttlKey opts" "tagsKey opts \<noteq> ttlKey opts"
    and codec: "\<And>ts. \<exists>ts'. JSON_parse_tags imp (JSON_stringify_tags imp ts) = Inr ts'"
    and "reachable opts imp s"
  shows "distinct_fields (hashes s (tagsKey opts))
       \<and> distinct_fields (hashes s (ttlKey opts))
       \<and> tags_parse imp (hashes s (tagsKey opts))"
  using assms(5)
proof (induction rule: reachable.induct)
  case (start s)
  then show ?case by (simp add: distinct_fields_def tags_parse_def)
next
  case (connection s b)
  then show ?case by simp
next
  case (by_get s now key ctx)
  then show ?case by (simp add: redis_get_hashes)
next
  case (by_set s key cv)
  obtain ts' where "JSON_parse_tags imp (JSON_stringify_tags imp (tags cv)) = Inr ts'"
    using codec by blast
  then show ?case
    using by_set.IH names(3)
    by (auto simp: redis_set_def assertClientIsReady_def Let_def distinct_fields_update
          tags_parse_update split: option.splits)
next
  case (by_revalidateTag s now tag)
  show ?case
  proof (cases "isReady s")
    case False
    then show ?thesis using by_revalidateTag.IH by (simp add: not_ready_fails_fast)
  next
    case True
    let ?sA = "marked opts imp now tag s"
    let ?sB = "snd (revalidateTags opts imp tag ?sA)"
    obtain D where D: "hashes ?sB = purge_hashes opts D (hashes ?sA)"
      using revalidateTags_purges [of opts imp tag ?sA] by blast
    obtain E where E: "hashes (snd (revalidateSharedKeys opts now ?sB)) = purge_hashes opts E (hashes ?sB)"
      using revalidateSharedKeys_purges [of opts now ?sB] by blast
    show ?thesis
      using by_revalidateTag.IH names(1,2)
      by (simp add: redis_revalidateTag_ready(1) [OF True] E D purge_hashes_index marked_sel
            distinct_fields_filter tags_parse_filter)
  qed
next
  case (by_delete s key)
  then show ?case
    using names(3)
    by (auto simp: redis_delete_def distinct_fields_filter tags_parse_filter)
qed

end
